theory Spec2Isabelle
  imports Complex_Main
begin

section \<open>Number reuse store (apis/phone\_manager.py)\<close>

text \<open>
  One entry of \<^verbatim>\<open>PhoneManager.numbers\<close>: the JSON object built by
  \<^verbatim>\<open>add_number\<close>. The three keys that \<^verbatim>\<open>ActivationInfo\<close> also has carry the
  prefix \<open>rn_\<close>. Timestamps are the values of \<^verbatim>\<open>time.time()\<close>, taken as real numbers.
\<close>

record reusable_number =
  rn_phone_number :: string
  rn_country_code :: string
  rn_activation_id :: string
  first_used :: real
  last_used :: real
  services :: "string list"
  times_used :: int

text \<open>
  The manager: the list held in memory and the content of the storage file, with the number
  of times the file has been rewritten.
\<close>

record PhoneManager =
  numbers :: "reusable_number list"
  storage_file :: "reusable_number list"
  file_writes :: nat

definition reuse_window :: real where
  "reuse_window = 30 * 60"

definition save_numbers :: "PhoneManager \<Rightarrow> PhoneManager" where
  "save_numbers pm = pm\<lparr>storage_file := numbers pm, file_writes := Suc (file_writes pm)\<rparr>"

text \<open>Python truthiness of an argument that is a string or \<^verbatim>\<open>None\<close>.\<close>

fun truthy :: "string option \<Rightarrow> bool" where
  "truthy None = False"
| "truthy (Some s) = (s \<noteq> [])"

text \<open>
  The update that \<^verbatim>\<open>add_number\<close> and \<^verbatim>\<open>mark_number_used\<close> apply to an entry that
  is already stored.
\<close>

definition touch :: "real \<Rightarrow> string \<Rightarrow> reusable_number \<Rightarrow> reusable_number" where
  "touch current_time service number =
     number\<lparr>last_used := current_time,
            times_used := times_used number + 1,
            services := (if service \<notin> set (services number)
                         then services number @ [service] else services number)\<rparr>"

text \<open>
  \<^verbatim>\<open>for number in self.numbers: if number["phone_number"] == phone_number: ... return\<close>:
  the first entry with the phone number is changed; \<open>None\<close> when the loop finds none.
\<close>

fun update_first ::
  "string \<Rightarrow> (reusable_number \<Rightarrow> reusable_number) \<Rightarrow> reusable_number list
     \<Rightarrow> reusable_number list option" where
  "update_first p f [] = None"
| "update_first p f (number # rest) =
     (if rn_phone_number number = p then Some (f number # rest)
      else map_option ((#) number) (update_first p f rest))"

definition new_number :: "real \<Rightarrow> string \<Rightarrow> string \<Rightarrow> string \<Rightarrow> string \<Rightarrow> reusable_number" where
  "new_number current_time p c a service =
     \<lparr>rn_phone_number = p, rn_country_code = c, rn_activation_id = a,
      first_used = current_time, last_used = current_time,
      services = [service], times_used = 1\<rparr>"

fun add_number ::
  "real \<Rightarrow> string option \<Rightarrow> string option \<Rightarrow> string option \<Rightarrow> string
     \<Rightarrow> PhoneManager \<Rightarrow> bool \<times> PhoneManager" where
  "add_number current_time (Some p) (Some c) (Some a) service pm =
     (if \<not> (p \<noteq> [] \<and> c \<noteq> [] \<and> a \<noteq> []) then (False, pm)
      else (case update_first p (touch current_time service) (numbers pm) of
              Some ns \<Rightarrow> (True, save_numbers (pm\<lparr>numbers := ns\<rparr>))
            | None \<Rightarrow>
                (True, save_numbers
                   (pm\<lparr>numbers := numbers pm @ [new_number current_time p c a service]\<rparr>))))"
| "add_number current_time _ _ _ service pm = (False, pm)"

definition cleanup_expired_numbers :: "real \<Rightarrow> PhoneManager \<Rightarrow> PhoneManager" where
  "cleanup_expired_numbers current_time pm =
     save_numbers
       (pm\<lparr>numbers := filter (\<lambda>number. current_time - first_used number < reuse_window)
                          (numbers pm)\<rparr>)"

text \<open>The filter of the loop in \<^verbatim>\<open>get_reusable_number\<close>.\<close>

definition valid_number :: "real \<Rightarrow> string \<Rightarrow> reusable_number \<Rightarrow> bool" where
  "valid_number current_time service number \<longleftrightarrow>
     current_time - last_used number < reuse_window \<and> service \<notin> set (services number)"

definition checkout :: "real \<Rightarrow> string \<Rightarrow> reusable_number \<Rightarrow> reusable_number" where
  "checkout current_time service selected =
     selected\<lparr>last_used := current_time,
              times_used := times_used selected + 1,
              services := services selected @ [service]\<rparr>"

text \<open>
  \<^verbatim>\<open>get_reusable_number\<close> reads the clock first (\<open>current_time\<close>), then
  \<^verbatim>\<open>_cleanup_expired_numbers\<close> reads it again (\<open>cleanup_time\<close>). \<^verbatim>\<open>valid_numbers\<close> holds
  references to the stored objects, so the model keeps their positions: the stable sort of
  the positions by \<^verbatim>\<open>times_used\<close>, the first of them updated in place.
\<close>

definition get_reusable_number ::
  "real \<Rightarrow> real \<Rightarrow> string \<Rightarrow> PhoneManager \<Rightarrow> reusable_number option \<times> PhoneManager" where
  "get_reusable_number current_time cleanup_time service pm =
     (let pm1 = cleanup_expired_numbers cleanup_time pm;
          ns = numbers pm1;
          valid_numbers = filter (\<lambda>i. valid_number current_time service (ns ! i))
                            [0..<length ns];
          sorted_numbers = sort_key (\<lambda>i. times_used (ns ! i)) valid_numbers
      in (case sorted_numbers of
            [] \<Rightarrow> (None, pm1)
          | i # _ \<Rightarrow>
              (let selected = checkout current_time service (ns ! i)
               in (Some selected, save_numbers (pm1\<lparr>numbers := ns[i := selected]\<rparr>)))))"

definition mark_number_used ::
  "real \<Rightarrow> string \<Rightarrow> string \<Rightarrow> PhoneManager \<Rightarrow> bool \<times> PhoneManager" where
  "mark_number_used current_time p service pm =
     (case update_first p (touch current_time service) (numbers pm) of
        Some ns \<Rightarrow> (True, save_numbers (pm\<lparr>numbers := ns\<rparr>))
      | None \<Rightarrow> (False, pm))"

text \<open>\<^verbatim>\<open>del self.numbers[i]\<close> at the first entry with the phone number.\<close>

fun delete_first :: "string \<Rightarrow> reusable_number list \<Rightarrow> reusable_number list option" where
  "delete_first p [] = None"
| "delete_first p (number # rest) =
     (if rn_phone_number number = p then Some rest
      else map_option ((#) number) (delete_first p rest))"

definition remove_number :: "string \<Rightarrow> PhoneManager \<Rightarrow> bool \<times> PhoneManager" where
  "remove_number p pm =
     (case delete_first p (numbers pm) of
        Some ns \<Rightarrow> (True, save_numbers (pm\<lparr>numbers := ns\<rparr>))
      | None \<Rightarrow> (False, pm))"

text \<open>The invariant of the store: no entry was last used before it was first used.\<close>

definition store_inv :: "PhoneManager \<Rightarrow> bool" where
  "store_inv pm \<longleftrightarrow> list_all (\<lambda>number. first_used number \<le> last_used number) (numbers pm)"

text \<open>The clock reading is not earlier than the first use of any stored entry.\<close>

definition not_before_first_use :: "real \<Rightarrow> PhoneManager \<Rightarrow> bool" where
  "not_before_first_use current_time pm \<longleftrightarrow>
     list_all (\<lambda>number. first_used number \<le> current_time) (numbers pm)"

subsection \<open>Example stores\<close>

text \<open>
  A store of two entries first used at time 100: the first has been used twice and is
  tagged \<open>tk\<close>, the second once and is tagged \<open>fb\<close>.
\<close>

definition example_numbers :: "reusable_number list" where
  "example_numbers =
     [\<lparr>rn_phone_number = ''5511'', rn_country_code = ''151'', rn_activation_id = ''a1'',
       first_used = 100, last_used = 150, services = [''tk''], times_used = 2\<rparr>,
      \<lparr>rn_phone_number = ''5522'', rn_country_code = ''12'', rn_activation_id = ''a2'',
       first_used = 100, last_used = 100, services = [''fb''], times_used = 1\<rparr>]"

definition example_manager :: PhoneManager where
  "example_manager =
     \<lparr>numbers = example_numbers, storage_file = example_numbers, file_writes = 0\<rparr>"

text \<open>
  The manager of a first run: \<^verbatim>\<open>_load_numbers\<close> finds no storage file and returns
  \<^verbatim>\<open>[]\<close>.
\<close>

definition new_manager :: PhoneManager where
  "new_manager = \<lparr>numbers = [], storage_file = [], file_writes = 0\<rparr>"

text \<open>
  A store of four entries, read at time 2000. The first was first used at time 100 and
  last used at time 1990: it is expired although it was used ten seconds ago. The second
  is the least used of all and carries the tag \<open>go\<close>. The last two have been used three
  times each.
\<close>

definition mixed_numbers :: "reusable_number list" where
  "mixed_numbers =
     [\<lparr>rn_phone_number = ''5500'', rn_country_code = ''16'', rn_activation_id = ''a0'',
       first_used = 100, last_used = 1990, services = [''tk'', ''fb''], times_used = 2\<rparr>,
      \<lparr>rn_phone_number = ''5511'', rn_country_code = ''151'', rn_activation_id = ''a1'',
       first_used = 1000, last_used = 1000, services = [''go''], times_used = 1\<rparr>,
      \<lparr>rn_phone_number = ''5522'', rn_country_code = ''12'', rn_activation_id = ''a2'',
       first_used = 1000, last_used = 1500, services = [''tk'', ''fb''], times_used = 3\<rparr>,
      \<lparr>rn_phone_number = ''5533'', rn_country_code = ''40'', rn_activation_id = ''a3'',
       first_used = 1200, last_used = 1600, services = [''fb'', ''tk''], times_used = 3\<rparr>]"

definition mixed_manager :: PhoneManager where
  "mixed_manager =
     \<lparr>numbers = mixed_numbers, storage_file = mixed_numbers, file_writes = 0\<rparr>"

text \<open>
  A store written while the clock stepped back: the first entry was added at time 1000 and
  marked as used at a clock reading of 990.
\<close>

definition skewed_numbers :: "reusable_number list" where
  "skewed_numbers =
     [\<lparr>rn_phone_number = ''5511'', rn_country_code = ''151'', rn_activation_id = ''a1'',
       first_used = 1000, last_used = 990, services = [''tk''], times_used = 2\<rparr>,
      \<lparr>rn_phone_number = ''5522'', rn_country_code = ''12'', rn_activation_id = ''a2'',
       first_used = 1000, last_used = 1000, services = [''fb''], times_used = 5\<rparr>]"

definition skewed_manager :: PhoneManager where
  "skewed_manager =
     \<lparr>numbers = skewed_numbers, storage_file = skewed_numbers, file_writes = 0\<rparr>"

section \<open>Verification orchestrator (automations/gmail\_creator/phone\_verify.py)\<close>

datatype VerificationState =
  INITIAL | NUMBER_REQUESTED | NUMBER_RECEIVED | NUMBER_SUBMITTED | WAITING_SMS
  | SMS_RECEIVED | RESENDING_SMS | FAILED_SMS | COMPLETED | FAILED

text \<open>The dataclass \<^verbatim>\<open>ActivationInfo\<close>; its field \<^verbatim>\<open>state\<close> is \<open>a_state\<close> here.\<close>

record ActivationInfo =
  activation_id :: string
  phone_number :: string
  country_code :: string
  start_time :: real
  a_state :: VerificationState
  attempts :: nat
  max_lifetime :: nat

subsection \<open>The world outside the orchestrator\<close>

text \<open>
  A call that may raise: \<open>Raised\<close>, or \<open>Returned\<close> with its value.
\<close>

datatype 'a outcome = Raised | Returned 'a

text \<open>
  What one \<^verbatim>\<open>getStatus\<close> request of \<^verbatim>\<open>SMSAPI.get_sms_code\<close> brings: a code, the
  cancellation of the activation, or anything else (no SMS yet, an HTTP error, an exception,
  a reply that does not split in two), after which the loop sleeps and polls again.
\<close>

datatype status_response = STATUS_OK string | STATUS_CANCEL | STATUS_WAIT

text \<open>
  The log of a run: the \<^verbatim>\<open>buy_number\<close> calls with their country and what they returned
  (\<open>None\<close> for \<^verbatim>\<open>(None, None)\<close>), the \<^verbatim>\<open>set_status\<close> calls with activation id and
  status, and the additions to \<^verbatim>\<open>used_countries\<close>.
\<close>

datatype event =
  BuyNumber string "(string \<times> string) option"
  | SetStatus string nat
  | Exclude string

text \<open>
  The SMS service, the browser and the clock answer the orchestrator; the answers are
  functions of the number of questions asked so far (\<open>tick\<close>), so that the same question
  may be answered differently later. The methods of \<^verbatim>\<open>SMSAPI\<close> catch the exceptions of
  their requests and return; the driver may raise.
  \<^item> \<open>selected_countries\<close>: the keys of \<^verbatim>\<open>sms_api.selected_countries\<close>, in the order of
    the dictionary;
  \<^item> \<open>phone_screen\<close>: the wait of \<^verbatim>\<open>_check_phone_screen\<close>: \<open>Returned True\<close> when the phone
    input is present, \<open>Returned False\<close> on \<^verbatim>\<open>TimeoutException\<close>, \<open>Raised\<close> on any other
    exception;
  \<^item> \<open>get_balance\<close>, \<open>get_number_status\<close>, \<open>buy_number\<close>: what the methods of \<^verbatim>\<open>SMSAPI\<close>
    return; \<open>get_prices\<close>: the cost of service \<open>go\<close> for each country of the dictionary
    that \<^verbatim>\<open>get_prices(service="go")\<close> returns;
  \<^item> \<open>phone_screen_restored\<close>: the result of \<^verbatim>\<open>_ensure_phone_verification_screen\<close>, which
    only drives the browser and catches every exception;
  \<^item> \<open>page_refresh\<close>: \<open>False\<close> when \<^verbatim>\<open>driver.refresh()\<close> raises;
  \<^item> \<open>phone_input_ready\<close>: in \<^verbatim>\<open>_submit_phone_number\<close>, \<open>False\<close> when the page does not get
    ready, the phone input is not clickable after three waits, or scrolling to it raises
    (the paths that return \<open>False\<close> at once);
  \<^item> \<open>format_accepted\<close>: whether the form accepts the number in the given format (the
    paths of the format loop that return \<open>True\<close>, against those that go on to the next
    format);
  \<^item> \<open>get_status\<close>: the reply to one poll for the SMS;
  \<^item> \<open>clock\<close>: \<^verbatim>\<open>time.time()\<close>;
  \<^item> \<open>resend_button_clicked\<close>: whether one of the selectors and click strategies for
    "Get a new code" worked;
  \<^item> \<open>phone_input_shown\<close>: after the click, whether the page is back on the phone input;
  \<^item> \<open>code_entered\<close>: \<open>False\<close> when locating the code input, typing the code or clicking
    Next raises;
  \<^item> \<open>code_rejected\<close>: whether one of the wrong-code messages is on the page.
\<close>

record world =
  selected_countries :: "string list"
  phone_screen :: "nat \<Rightarrow> bool outcome"
  get_balance :: "nat \<Rightarrow> real option"
  get_number_status :: "nat \<Rightarrow> string \<Rightarrow> int"
  get_prices :: "nat \<Rightarrow> (string \<times> real) list option"
  buy_number :: "nat \<Rightarrow> string \<Rightarrow> (string \<times> string) option"
  phone_screen_restored :: "nat \<Rightarrow> bool"
  page_refresh :: "nat \<Rightarrow> bool"
  phone_input_ready :: "nat \<Rightarrow> bool"
  format_accepted :: "nat \<Rightarrow> string \<Rightarrow> bool"
  get_status :: "nat \<Rightarrow> string \<Rightarrow> status_response"
  clock :: "nat \<Rightarrow> real"
  resend_button_clicked :: "nat \<Rightarrow> bool"
  phone_input_shown :: "nat \<Rightarrow> bool"
  code_entered :: "nat \<Rightarrow> bool"
  code_rejected :: "nat \<Rightarrow> bool"

subsection \<open>The orchestrator's state\<close>

text \<open>
  The attributes of \<^verbatim>\<open>PhoneVerification\<close> that its methods read or write
  (\<^verbatim>\<open>self.phone_number\<close> is \<open>self_phone_number\<close>, \<^verbatim>\<open>self._available_numbers\<close> is
  \<open>available_numbers\<close>), the log of the run and the count of questions asked.
  The store is held by value: \<^verbatim>\<open>phone_manager\<close> is \<open>None\<close> or a \<^verbatim>\<open>PhoneManager\<close>.
\<close>

record PhoneVerification =
  current_activation :: "ActivationInfo option"
  used_countries :: "string set"
  state :: VerificationState
  available_numbers :: "(string \<times> int) list"
  self_phone_number :: "string option"
  phone_manager :: "PhoneManager option"
  trace :: "event list"
  tick :: nat

definition MAX_PHONE_ATTEMPTS :: nat where
  "MAX_PHONE_ATTEMPTS = 3"

text \<open>The instance that \<^verbatim>\<open>__init__\<close> builds.\<close>

definition new_verification :: PhoneVerification where
  "new_verification =
     \<lparr>current_activation = None, used_countries = {}, state = INITIAL,
      available_numbers = [], self_phone_number = None, phone_manager = None,
      trace = [], tick = 0\<rparr>"

definition next_tick :: "PhoneVerification \<Rightarrow> PhoneVerification" where
  "next_tick s = s\<lparr>tick := Suc (tick s)\<rparr>"

definition emit :: "event \<Rightarrow> PhoneVerification \<Rightarrow> PhoneVerification" where
  "emit ev s = s\<lparr>trace := trace s @ [ev]\<rparr>"

text \<open>
  \<^verbatim>\<open>sms_api.set_status(activation_id, status)\<close>: the call is logged; no caller in the
  orchestrator looks at the boolean it returns.
\<close>

definition set_status :: "string \<Rightarrow> nat \<Rightarrow> PhoneVerification \<Rightarrow> PhoneVerification" where
  "set_status aid status s = emit (SetStatus aid status) s"

text \<open>\<^verbatim>\<open>self.used_countries.add(country_code)\<close>.\<close>

definition used_countries_add :: "string \<Rightarrow> PhoneVerification \<Rightarrow> PhoneVerification" where
  "used_countries_add c s = emit (Exclude c) (s\<lparr>used_countries := insert c (used_countries s)\<rparr>)"

subsection \<open>Checks before the first attempt\<close>

definition check_phone_screen :: "world \<Rightarrow> PhoneVerification \<Rightarrow> bool outcome \<times> PhoneVerification" where
  "check_phone_screen w s = (phone_screen w (tick s), next_tick s)"

text \<open>The loop of \<^verbatim>\<open>_check_number_availability\<close> over the selected countries.\<close>

fun check_countries ::
  "world \<Rightarrow> string list \<Rightarrow> (string \<times> int) list \<Rightarrow> PhoneVerification
     \<Rightarrow> (string \<times> int) list \<times> PhoneVerification" where
  "check_countries w [] available s = (available, s)"
| "check_countries w (c # cs) available s =
     (if c \<in> used_countries s then check_countries w cs available s
      else (let available_count = get_number_status w (tick s) c
            in check_countries w cs
                 (if available_count > 0 then available @ [(c, available_count)] else available)
                 (next_tick s)))"

definition check_number_availability :: "world \<Rightarrow> PhoneVerification \<Rightarrow> bool \<times> PhoneVerification" where
  "check_number_availability w s =
     (case check_countries w (selected_countries w) [] s of
        (available, s1) \<Rightarrow>
          if available = [] then (False, s1)
          else (True, s1\<lparr>available_numbers := available\<rparr>))"

definition validate_initial_conditions :: "world \<Rightarrow> PhoneVerification \<Rightarrow> bool \<times> PhoneVerification" where
  "validate_initial_conditions w s =
     (case get_balance w (tick s) of
        None \<Rightarrow> (False, next_tick s)
      | Some balance \<Rightarrow>
          if balance \<le> 0 then (False, next_tick s)
          else check_number_availability w (next_tick s))"

subsection \<open>Cancelling\<close>

definition cancel_number :: "PhoneVerification \<Rightarrow> PhoneVerification" where
  "cancel_number s =
     (case current_activation s of
        None \<Rightarrow> s
      | Some a \<Rightarrow>
          if state s = COMPLETED then s
          else (used_countries_add (country_code a) (set_status (activation_id a) 6 s))
                 \<lparr>current_activation := None\<rparr>)"

definition cancel_current_number :: "PhoneVerification \<Rightarrow> PhoneVerification" where
  "cancel_current_number s =
     (case current_activation s of
        None \<Rightarrow> s
      | Some a \<Rightarrow>
          (set_status (activation_id a) 6 (used_countries_add (country_code a) s))
            \<lparr>current_activation := None\<rparr>)"

definition ensure_final_cleanup :: "PhoneVerification \<Rightarrow> PhoneVerification" where
  "ensure_final_cleanup s =
     (case current_activation s of None \<Rightarrow> s | Some a \<Rightarrow> cancel_number s)"

subsection \<open>Acquiring a number\<close>

text \<open>
  The rows of \<^verbatim>\<open>filtered_prices\<close>: the available countries that the price dictionary
  lists, each with its cost.
\<close>

fun price_rows :: "(string \<times> real) list \<Rightarrow> string list \<Rightarrow> (string \<times> real) list" where
  "price_rows prices [] = []"
| "price_rows prices (c # cs) =
     (case map_of prices c of
        None \<Rightarrow> price_rows prices cs
      | Some cost \<Rightarrow> (c, cost) # price_rows prices cs)"

text \<open>
  The loop over the sorted rows: the first purchase that brings a phone number ends it;
  a country whose purchase brings none is added to \<^verbatim>\<open>used_countries\<close>.
\<close>

fun buy_loop ::
  "world \<Rightarrow> (string \<times> real) list \<Rightarrow> PhoneVerification
     \<Rightarrow> ActivationInfo option \<times> PhoneVerification" where
  "buy_loop w [] s = (None, s)"
| "buy_loop w ((c, price) # rest) s =
     (let bought = buy_number w (tick s) c;
          s1 = emit (BuyNumber c bought) (next_tick s)
      in (case bought of
            None \<Rightarrow> buy_loop w rest (used_countries_add c s1)
          | Some (aid, phone) \<Rightarrow>
              if phone \<noteq> [] then
                (Some \<lparr>activation_id = aid, phone_number = phone, country_code = c,
                       start_time = clock w (tick s1), a_state = NUMBER_RECEIVED,
                       attempts = 0, max_lifetime = 1200\<rparr>,
                 (next_tick s1)\<lparr>self_phone_number := Some phone\<rparr>)
              else buy_loop w rest (used_countries_add c s1)))"

definition get_new_number ::
  "world \<Rightarrow> PhoneVerification \<Rightarrow> ActivationInfo option \<times> PhoneVerification" where
  "get_new_number w s =
     (let available_countries = filter (\<lambda>code. code \<notin> used_countries s) (selected_countries w)
      in if available_countries = [] then (None, s)
         else (case get_prices w (tick s) of
                 None \<Rightarrow> (None, next_tick s)
               | Some prices \<Rightarrow>
                   if prices = [] then (None, next_tick s)
                   else (let filtered_prices = price_rows prices available_countries
                         in if filtered_prices = [] then (None, next_tick s)
                            else buy_loop w (sort_key snd filtered_prices) (next_tick s))))"

subsection \<open>Submitting the number\<close>

fun try_formats :: "world \<Rightarrow> string list \<Rightarrow> PhoneVerification \<Rightarrow> bool \<times> PhoneVerification" where
  "try_formats w [] s = (False, cancel_number s)"
| "try_formats w (phone_format # rest) s =
     (if format_accepted w (tick s) phone_format then (True, next_tick s)
      else try_formats w rest (next_tick s))"

definition submit_phone_number :: "world \<Rightarrow> PhoneVerification \<Rightarrow> bool \<times> PhoneVerification" where
  "submit_phone_number w s =
     (case current_activation s of
        None \<Rightarrow> (False, s)
      | Some a \<Rightarrow>
          if \<not> phone_input_ready w (tick s) then (False, next_tick s)
          else try_formats w
                 [phone_number a, ''+'' @ country_code a @ phone_number a] (next_tick s))"

subsection \<open>Waiting for the SMS (apis/sms\_api.py and \<^verbatim>\<open>_handle_sms_verification\<close>)\<close>

text \<open>
  \<^verbatim>\<open>SMSAPI.get_sms_code\<close>; the numeric argument is the number of polls left of
  \<^verbatim>\<open>range(max_attempts)\<close>. A code confirms with status 3; running out of polls cancels the
  activation with status 6.
\<close>

fun get_sms_code ::
  "world \<Rightarrow> string \<Rightarrow> nat \<Rightarrow> PhoneVerification \<Rightarrow> string option \<times> PhoneVerification" where
  "get_sms_code w aid 0 s = (None, set_status aid 6 s)"
| "get_sms_code w aid (Suc n) s =
     (case get_status w (tick s) aid of
        STATUS_OK code \<Rightarrow> (Some code, set_status aid 3 (next_tick s))
      | STATUS_CANCEL \<Rightarrow> (None, next_tick s)
      | STATUS_WAIT \<Rightarrow> get_sms_code w aid n (next_tick s))"

text \<open>\<^verbatim>\<open>not sms_code\<close>: no code, or an empty one.\<close>

fun no_code :: "string option \<Rightarrow> bool" where
  "no_code None = True"
| "no_code (Some code) = (code = [])"

definition sms_global_timeout :: real where
  "sms_global_timeout = 180"

text \<open>How one pass through the body of the resend loop ends.\<close>

datatype loop_step = Break | Continue | Polled "string option"

text \<open>
  The body after a successful click on "Get a new code": the settle delay, the check of the
  budget, the number submitted again when the page went back to the phone input, and the
  new wait for the SMS.
\<close>

definition after_resend_click ::
  "world \<Rightarrow> string \<Rightarrow> real \<Rightarrow> PhoneVerification \<Rightarrow> loop_step \<times> PhoneVerification" where
  "after_resend_click w aid sms_process_start s =
     (if clock w (tick s) - sms_process_start \<ge> sms_global_timeout then (Break, next_tick s)
      else (case (if phone_input_shown w (tick (next_tick s))
                  then submit_phone_number w (next_tick (next_tick s))
                  else (True, next_tick (next_tick s))) of
              (resubmitted, s2) \<Rightarrow>
                if \<not> resubmitted then (Continue, s2)
                else (let remaining_time = sms_global_timeout - (clock w (tick s2) - sms_process_start)
                      in if remaining_time < 30 then (Break, next_tick s2)
                         else (case get_sms_code w aid
                                      (max 1 (min 6 (nat \<lfloor>remaining_time / 15\<rfloor>)))
                                      (next_tick s2) of
                                 (sms_code, s4) \<Rightarrow> (Polled sms_code, s4)))))"

text \<open>
  The body of the resend loop, after \<^verbatim>\<open>resent_attempt += 1\<close>. When the button could not
  be clicked the loop goes on to its next pass, whether the page reload of the first pass
  raises or not.
\<close>

definition resend_attempt ::
  "world \<Rightarrow> string \<Rightarrow> real \<Rightarrow> PhoneVerification \<Rightarrow> loop_step \<times> PhoneVerification" where
  "resend_attempt w aid sms_process_start s =
     (let remaining_time = sms_global_timeout - (clock w (tick s) - sms_process_start);
          s1 = next_tick s
      in if remaining_time < 30 then (Break, s1)
         else if clock w (tick s1) - sms_process_start \<ge> sms_global_timeout
           then (Break, next_tick s1)
         else (let s2 = next_tick s1;
                   button_clicked = resend_button_clicked w (tick s2);
                   s3 = next_tick s2
               in if clock w (tick s3) - sms_process_start \<ge> sms_global_timeout
                    then (Break, next_tick s3)
                  else if \<not> button_clicked then (Continue, next_tick s3)
                  else after_resend_click w aid sms_process_start (next_tick s3)))"

function resend_loop ::
  "world \<Rightarrow> string \<Rightarrow> real \<Rightarrow> nat \<Rightarrow> string option \<Rightarrow> PhoneVerification
     \<Rightarrow> string option \<times> PhoneVerification" where
  "resend_loop w aid sms_process_start resent_attempt sms_code s =
     (if no_code sms_code \<and> resent_attempt < 2 then
        (if clock w (tick s) - sms_process_start < sms_global_timeout then
           (case resend_attempt w aid sms_process_start (next_tick s) of
              (Break, s') \<Rightarrow> (sms_code, s')
            | (Continue, s') \<Rightarrow>
                resend_loop w aid sms_process_start (resent_attempt + 1) sms_code s'
            | (Polled code, s') \<Rightarrow>
                resend_loop w aid sms_process_start (resent_attempt + 1) code s')
         else (sms_code, next_tick s))
      else (sms_code, s))"
  by pat_completeness auto
termination
  by (relation "measure (\<lambda>(w, aid, start, resent_attempt, sms_code, s). 2 - resent_attempt)") auto

text \<open>
  After a successful verification: \<^verbatim>\<open>phone_manager.add_number\<close> when a manager is attached.
  Without an activation the evaluation of the arguments raises, which is caught.
\<close>

definition store_number :: "world \<Rightarrow> PhoneVerification \<Rightarrow> PhoneVerification" where
  "store_number w s =
     (case phone_manager s of
        None \<Rightarrow> s
      | Some pm \<Rightarrow>
          (case current_activation s of
             None \<Rightarrow> s
           | Some a \<Rightarrow>
               (next_tick s)\<lparr>phone_manager :=
                  Some (snd (add_number (clock w (tick s)) (self_phone_number s)
                               (Some (country_code a)) (Some (activation_id a)) ''gmail'' pm))\<rparr>))"

text \<open>
  The rest of \<^verbatim>\<open>_handle_sms_verification\<close>, once the waiting is over: no code, too little
  time left, a failure to enter the code or a wrong-code message cancel the number;
  otherwise status 8 is set, the state becomes \<open>COMPLETED\<close> and the number is stored.
\<close>

definition enter_code ::
  "world \<Rightarrow> string \<Rightarrow> real \<Rightarrow> string option \<Rightarrow> PhoneVerification \<Rightarrow> bool \<times> PhoneVerification" where
  "enter_code w aid sms_process_start sms_code s =
     (if no_code sms_code then (False, cancel_current_number (next_tick s))
      else if sms_global_timeout - (clock w (tick s) - sms_process_start) < 10
        then (False, cancel_current_number (next_tick s))
      else if \<not> code_entered w (tick (next_tick s))
        then (False, cancel_current_number (next_tick (next_tick s)))
      else if code_rejected w (tick (next_tick (next_tick s)))
        then (False, cancel_current_number (next_tick (next_tick (next_tick s))))
      else (True, store_number w
                    ((set_status aid 8 (next_tick (next_tick (next_tick s))))
                       \<lparr>state := COMPLETED\<rparr>)))"

definition handle_sms_verification :: "world \<Rightarrow> PhoneVerification \<Rightarrow> bool \<times> PhoneVerification" where
  "handle_sms_verification w s =
     (case current_activation s of
        None \<Rightarrow> (False, s)
      | Some a \<Rightarrow>
          (let s1 = s\<lparr>state := WAITING_SMS\<rparr>;
               sms_process_start = clock w (tick s1)
           in (case get_sms_code w (activation_id a) 6 (next_tick s1) of
                 (sms_code, s2) \<Rightarrow>
                   (case resend_loop w (activation_id a) sms_process_start 0 sms_code s2 of
                      (sms_code', s3) \<Rightarrow>
                        enter_code w (activation_id a) sms_process_start sms_code' s3))))"

subsection \<open>One attempt, and the whole verification\<close>

text \<open>
  \<^verbatim>\<open>_try_verification_cycle\<close> from the assignment of \<^verbatim>\<open>self.current_activation\<close> on.
\<close>

definition acquire_and_verify :: "world \<Rightarrow> PhoneVerification \<Rightarrow> bool \<times> PhoneVerification" where
  "acquire_and_verify w s =
     (case get_new_number w s of
        (None, s1) \<Rightarrow> (False, s1\<lparr>current_activation := None\<rparr>)
      | (Some a, s1) \<Rightarrow>
          (case submit_phone_number w (s1\<lparr>current_activation := Some a\<rparr>) of
             (False, s2) \<Rightarrow> (False, s2)
           | (True, s2) \<Rightarrow> handle_sms_verification w s2))"

text \<open>
  \<^verbatim>\<open>_try_verification_cycle\<close>: when a country has been used already the page is reloaded
  and the phone screen probed; an exception there is caught by the handler of the cycle,
  which cancels the number held and returns \<open>False\<close>.
\<close>

definition try_verification_cycle :: "world \<Rightarrow> PhoneVerification \<Rightarrow> bool \<times> PhoneVerification" where
  "try_verification_cycle w s =
     (if used_countries s \<noteq> {} then
        (if \<not> page_refresh w (tick s) then (False, cancel_number (next_tick s))
         else (case check_phone_screen w (next_tick s) of
                 (Raised, s1) \<Rightarrow> (False, cancel_number s1)
               | (Returned present, s1) \<Rightarrow> acquire_and_verify w s1))
      else acquire_and_verify w s)"

text \<open>
  The \<^verbatim>\<open>while\<close> loop of \<^verbatim>\<open>handle_verification\<close>; \<open>attempt_count\<close> is its counter on entry
  to a pass, so that the test \<^verbatim>\<open>attempt_count > 1\<close> made after the increment reads
  \<open>0 < attempt_count\<close>. No call in the body raises: each catches its exceptions.
\<close>

function attempts_loop :: "world \<Rightarrow> nat \<Rightarrow> PhoneVerification \<Rightarrow> bool \<times> PhoneVerification" where
  "attempts_loop w attempt_count s =
     (if attempt_count < MAX_PHONE_ATTEMPTS then
        (if 0 < attempt_count \<and> \<not> phone_screen_restored w (tick s)
           then attempts_loop w (attempt_count + 1) (next_tick s)
         else (case try_verification_cycle w
                      (if 0 < attempt_count then next_tick s else s) of
                 (True, s') \<Rightarrow> (True, s')
               | (False, s') \<Rightarrow> attempts_loop w (attempt_count + 1) s'))
      else (False, s))"
  by pat_completeness auto
termination
  by (relation "measure (\<lambda>(w, attempt_count, s). MAX_PHONE_ATTEMPTS - attempt_count)") auto

text \<open>
  \<^verbatim>\<open>handle_verification\<close>: the body of the \<^verbatim>\<open>try\<close>, its \<^verbatim>\<open>except\<close> handler (reached when
  the first probe of the phone screen raises) and the \<^verbatim>\<open>finally\<close> clause.
\<close>

definition handle_verification :: "world \<Rightarrow> PhoneVerification \<Rightarrow> bool \<times> PhoneVerification" where
  "handle_verification w s =
     (case (case check_phone_screen w s of
              (Raised, s1) \<Rightarrow>
                (False, if state s1 \<noteq> COMPLETED then cancel_current_number s1 else s1)
            | (Returned False, s1) \<Rightarrow> (True, s1)
            | (Returned True, s1) \<Rightarrow>
                (case validate_initial_conditions w s1 of
                   (False, s2) \<Rightarrow> (False, s2)
                 | (True, s2) \<Rightarrow> attempts_loop w 0 s2)) of
        (result, s') \<Rightarrow> (result, ensure_final_cleanup s'))"

subsection \<open>Reading the log\<close>

text \<open>
  A log respects the exclusion set \<open>U\<close> when no purchase in it targets a country of \<open>U\<close> or
  one excluded earlier in the log.
\<close>

fun respects_exclusion :: "string set \<Rightarrow> event list \<Rightarrow> bool" where
  "respects_exclusion U [] = True"
| "respects_exclusion U (BuyNumber c r # es) = (c \<notin> U \<and> respects_exclusion U es)"
| "respects_exclusion U (Exclude c # es) = respects_exclusion (insert c U) es"
| "respects_exclusion U (SetStatus aid status # es) = respects_exclusion U es"

fun excluded :: "event list \<Rightarrow> string set" where
  "excluded [] = {}"
| "excluded (Exclude c # es) = insert c (excluded es)"
| "excluded (ev # es) = excluded es"

text \<open>The countries of the purchases in a log, in order.\<close>

fun buy_targets :: "event list \<Rightarrow> string list" where
  "buy_targets [] = []"
| "buy_targets (BuyNumber c r # es) = c # buy_targets es"
| "buy_targets (ev # es) = buy_targets es"

text \<open>The countries whose purchase in the log brought no phone number.\<close>

fun failed_targets :: "event list \<Rightarrow> string set" where
  "failed_targets [] = {}"
| "failed_targets (BuyNumber c None # es) = insert c (failed_targets es)"
| "failed_targets (BuyNumber c (Some (aid, phone)) # es) =
     (if phone = [] then insert c (failed_targets es) else failed_targets es)"
| "failed_targets (ev # es) = failed_targets es"

subsection \<open>Predicates kept by the steps of a run\<close>

text \<open>
  A predicate on the orchestrator's state is stable when the elementary steps of a run keep
  it: asking a question, releasing the activation, a \<open>set_status\<close> call, an addition to
  \<open>used_countries\<close>, a change of \<open>state\<close> or of \<open>available_numbers\<close>. The steps of
  the acquisition (a purchase in a country that is not excluded, the assignments of
  \<open>self_phone_number\<close> and \<open>current_activation\<close>) and the write to the store are asked
  for separately.
\<close>

definition stable :: "(PhoneVerification \<Rightarrow> bool) \<Rightarrow> bool" where
  "stable P \<longleftrightarrow>
     (\<forall>s. P s \<longrightarrow> P (next_tick s))
   \<and> (\<forall>s. P s \<longrightarrow> P (s\<lparr>current_activation := None\<rparr>))
   \<and> (\<forall>s aid n. P s \<longrightarrow> P (set_status aid n s))
   \<and> (\<forall>s c. P s \<longrightarrow> P (used_countries_add c s))
   \<and> (\<forall>s st. P s \<longrightarrow> P (s\<lparr>state := st\<rparr>))
   \<and> (\<forall>s av. P s \<longrightarrow> P (s\<lparr>available_numbers := av\<rparr>))"

definition store_stable :: "(PhoneVerification \<Rightarrow> bool) \<Rightarrow> bool" where
  "store_stable P \<longleftrightarrow> (\<forall>s pm. P s \<longrightarrow> P (s\<lparr>phone_manager := pm\<rparr>))"

definition acquire_stable :: "(PhoneVerification \<Rightarrow> bool) \<Rightarrow> bool" where
  "acquire_stable P \<longleftrightarrow>
     (\<forall>s v. P s \<longrightarrow> P (s\<lparr>self_phone_number := v\<rparr>))
   \<and> (\<forall>s a. P s \<longrightarrow> P (s\<lparr>current_activation := a\<rparr>))
   \<and> (\<forall>s c r. P s \<longrightarrow> c \<notin> used_countries s \<longrightarrow> P (emit (BuyNumber c r) s))"

definition buy_free :: "(PhoneVerification \<Rightarrow> bool) \<Rightarrow> bool" where
  "buy_free P \<longleftrightarrow> (\<forall>s c r. P s \<longrightarrow> P (emit (BuyNumber c r) s))"

definition run_stable :: "world \<Rightarrow> (PhoneVerification \<Rightarrow> bool) \<Rightarrow> bool" where
  "run_stable w P \<longleftrightarrow>
     stable P \<and> acquire_stable P \<and> (buy_free P \<or> distinct (selected_countries w))"

text \<open>
  The invariant of a run that starts with exclusion set \<open>U\<close> and log \<open>pre\<close>: what has
  been logged since respects the exclusions, and \<open>used_countries\<close> is \<open>U\<close> with the
  countries excluded since.
\<close>

definition exclusion_inv :: "string set \<Rightarrow> event list \<Rightarrow> PhoneVerification \<Rightarrow> bool" where
  "exclusion_inv U pre s \<longleftrightarrow>
     (\<exists>es. trace s = pre @ es \<and> respects_exclusion U es \<and> used_countries s = U \<union> excluded es)"

subsection \<open>The rows of one acquisition\<close>

text \<open>
  The list \<^verbatim>\<open>filtered_prices\<close> of \<^verbatim>\<open>_get_new_number\<close> after its sort, as a function of
  the state in which \<^verbatim>\<open>_get_new_number\<close> is entered: the selected countries that are not
  in \<^verbatim>\<open>used_countries\<close> and that the price query lists, by ascending price.
\<close>

definition filtered_prices :: "world \<Rightarrow> PhoneVerification \<Rightarrow> (string \<times> real) list" where
  "filtered_prices w s =
     (case get_prices w (tick s) of
        None \<Rightarrow> []
      | Some prices \<Rightarrow>
          sort_key snd
            (price_rows prices
               (filter (\<lambda>code. code \<notin> used_countries s) (selected_countries w))))"

subsection \<open>Frames of a run\<close>

text \<open>
  What the steps of a run that do not reach the store leave as it is: the log is only
  extended, and the store is the one the run started with.
\<close>

definition run_frame :: "event list \<Rightarrow> PhoneManager option \<Rightarrow> PhoneVerification \<Rightarrow> bool" where
  "run_frame pre pm s \<longleftrightarrow> (\<exists>es. trace s = pre @ es) \<and> phone_manager s = pm"

text \<open>
  The same while the orchestrator waits for the SMS of activation \<open>a\<close>: the number bought
  stays in \<open>self_phone_number\<close>, and the activation is still held or has been released.
\<close>

definition sms_frame ::
  "event list \<Rightarrow> PhoneManager option \<Rightarrow> string option \<Rightarrow> ActivationInfo
     \<Rightarrow> PhoneVerification \<Rightarrow> bool" where
  "sms_frame pre pm phone a s \<longleftrightarrow>
     (\<exists>es. trace s = pre @ es) \<and> phone_manager s = pm \<and> self_phone_number s = phone
     \<and> (current_activation s = None \<or> current_activation s = Some a)"

text \<open>
  The end of a run that started with log \<open>pre\<close> and store \<open>pm\<close> and completed activation
  \<open>act\<close>: the activation was bought in the run, status 8 is the last call logged, the
  state is \<open>COMPLETED\<close>, and the store has been written by \<open>add_number\<close> when there is
  one and the activation is still held.
\<close>

definition completed_with ::
  "world \<Rightarrow> event list \<Rightarrow> PhoneManager option \<Rightarrow> ActivationInfo \<Rightarrow> PhoneVerification \<Rightarrow> bool" where
  "completed_with w pre pm act s' \<longleftrightarrow>
     (\<exists>es. trace s' = pre @ es @ [SetStatus (activation_id act) 8]
          \<and> BuyNumber (country_code act) (Some (activation_id act, phone_number act)) \<in> set es)
     \<and> phone_number act \<noteq> []
     \<and> state s' = COMPLETED
     \<and> (current_activation s' = None \<or> current_activation s' = Some act)
     \<and> phone_manager s' =
         (case (pm, current_activation s') of
            (Some m, Some held) \<Rightarrow>
              Some (snd (add_number (clock w (tick s' - 1)) (Some (phone_number act))
                           (Some (country_code act)) (Some (activation_id act)) ''gmail'' m))
          | _ \<Rightarrow> pm)"


subsection \<open>Example worlds\<close>

text \<open>
  A world in which everything works at once: the five selected countries of
  \<^verbatim>\<open>SMSAPI.__init__\<close>, a positive balance, stock everywhere, prices for three countries,
  a form that accepts the number and an SMS that arrives at the first poll.
\<close>

definition example_world :: world where
  "example_world =
     \<lparr>selected_countries = [''151'', ''12'', ''40'', ''16'', ''117''],
      phone_screen = (\<lambda>t. Returned True),
      get_balance = (\<lambda>t. Some 50),
      get_number_status = (\<lambda>t c. 5),
      get_prices = (\<lambda>t. Some [(''151'', 20), (''12'', 10), (''40'', 10)]),
      buy_number = (\<lambda>t c. Some (''id'' @ c, ''5550100'')),
      phone_screen_restored = (\<lambda>t. True),
      page_refresh = (\<lambda>t. True),
      phone_input_ready = (\<lambda>t. True),
      format_accepted = (\<lambda>t f. True),
      get_status = (\<lambda>t aid. STATUS_OK ''123456''),
      clock = (\<lambda>t. 200 + real t),
      resend_button_clicked = (\<lambda>t. True),
      phone_input_shown = (\<lambda>t. False),
      code_entered = (\<lambda>t. True),
      code_rejected = (\<lambda>t. False)\<rparr>"

text \<open>The same world with a form that rejects every number in every format.\<close>

definition rejecting_world :: world where
  "rejecting_world = example_world\<lparr>format_accepted := (\<lambda>t f. False)\<rparr>"

text \<open>The same world without the phone step on the form.\<close>

definition no_screen_world :: world where
  "no_screen_world = example_world\<lparr>phone_screen := (\<lambda>t. Returned False)\<rparr>"

text \<open>The same world with an empty balance.\<close>

definition no_balance_world :: world where
  "no_balance_world = example_world\<lparr>get_balance := (\<lambda>t. Some 0)\<rparr>"

text \<open>
  A world in which the phone input is on the page but never gets clickable, and every
  purchase brings a new activation: \<open>A1\<close> for the purchase of the first attempt, \<open>A2\<close> for
  that of the second, \<open>A3\<close> afterwards.
\<close>

definition stuck_form_world :: world where
  "stuck_form_world =
     example_world
       \<lparr>buy_number := (\<lambda>t c. if t \<le> 8 then Some (''A1'', ''5550101'')
                               else if t \<le> 13 then Some (''A2'', ''5550102'')
                               else Some (''A3'', ''5550103'')),
        phone_input_ready := (\<lambda>t. False)\<rparr>"

text \<open>A new orchestrator with the example store attached.\<close>

definition verification_with_store :: PhoneVerification where
  "verification_with_store = new_verification\<lparr>phone_manager := Some example_manager\<rparr>"

text \<open>The example world without stock in country \<open>12\<close>.\<close>

definition scarce_world :: world where
  "scarce_world =
     example_world
       \<lparr>buy_number := (\<lambda>t c. if c = ''12'' then None else Some (''id'' @ c, ''5550100''))\<rparr>"

text \<open>An orchestrator with the example store attached that has excluded country \<open>40\<close>.\<close>

definition excluding_verification :: PhoneVerification where
  "excluding_verification = verification_with_store\<lparr>used_countries := {''40''}\<rparr>"

section \<open>Properties of the number reuse store\<close>

lemma numbers_save_numbers [simp]: "numbers (save_numbers pm) = numbers pm"
  by (simp add: save_numbers_def)

lemma numbers_cleanup_expired_numbers [simp]:
  "numbers (cleanup_expired_numbers t pm) =
     filter (\<lambda>number. t - first_used number < reuse_window) (numbers pm)"
  by (simp add: cleanup_expired_numbers_def)

lemma update_first_list_all:
  "update_first p f ns = Some ns' \<Longrightarrow> list_all P ns
     \<Longrightarrow> (\<And>n. n \<in> set ns \<Longrightarrow> P n \<Longrightarrow> P (f n)) \<Longrightarrow> list_all P ns'"
  by (induction ns arbitrary: ns') (auto split: if_splits)

lemma delete_first_list_all:
  "delete_first p ns = Some ns' \<Longrightarrow> list_all P ns \<Longrightarrow> list_all P ns'"
  by (induction ns arbitrary: ns') (auto split: if_splits)

lemma list_all_list_update:
  "list_all P ns \<Longrightarrow> P x \<Longrightarrow> list_all P (ns[i := x])"
  by (induction ns arbitrary: i) (auto split: nat.splits)

subsection \<open>The head of a stable sort\<close>

lemma sort_key_head_least:
  assumes "sort_key f xs = i # rest"
  shows "i \<in> set xs \<and> (\<forall>j\<in>set xs. f i \<le> f j)"
proof -
  have "set (sort_key f xs) = set xs" by simp
  with assms have mem: "i \<in> set xs" and sub: "set xs = insert i (set rest)" by auto
  have "sorted (map f (sort_key f xs))" by (rule sorted_sort_key)
  with assms have "\<forall>j\<in>set rest. f i \<le> f j" by simp
  with sub mem show ?thesis by auto
qed

lemma sort_key_head_first:
  fixes xs :: "nat list"
  assumes "sort_key f xs = i # rest" "sorted xs" "j \<in> set xs" "f j = f i"
  shows "i \<le> j"
proof -
  have "filter (\<lambda>y. f y = f i) (sort_key f xs) = filter (\<lambda>y. f y = f i) xs"
    by (rule sort_key_stable)
  with assms(1) have eq: "filter (\<lambda>y. f y = f i) xs = i # filter (\<lambda>y. f y = f i) rest"
    by simp
  have "sorted (filter (\<lambda>y. f y = f i) xs)" using assms(2) by (rule sorted_wrt_filter)
  with eq have "\<forall>k\<in>set (filter (\<lambda>y. f y = f i) rest). i \<le> k" by simp
  moreover have "j \<in> set (filter (\<lambda>y. f y = f i) xs)" using assms(3,4) by simp
  ultimately show ?thesis using eq by auto
qed

subsection \<open>What \<open>get_reusable_number\<close> returns\<close>

lemma get_reusable_number_Some:
  assumes "get_reusable_number t1 t2 service pm = (Some r, pm')"
  defines "ns \<equiv> numbers (cleanup_expired_numbers t2 pm)"
  shows "\<exists>i<length ns. valid_number t1 service (ns ! i) \<and> r = checkout t1 service (ns ! i)
           \<and> numbers pm' = ns[i := r]
           \<and> (\<forall>j<length ns. valid_number t1 service (ns ! j) \<longrightarrow>
                  times_used (ns ! i) \<le> times_used (ns ! j)
                  \<and> (times_used (ns ! j) = times_used (ns ! i) \<longrightarrow> i \<le> j))"
proof -
  let ?f = "\<lambda>i. times_used (ns ! i)"
  let ?xs = "filter (\<lambda>i. valid_number t1 service (ns ! i)) [0..<length ns]"
  from assms(1) have "sort_key ?f ?xs \<noteq> []"
    unfolding get_reusable_number_def ns_def Let_def
    by (cases "sort_key ?f ?xs") (simp_all add: ns_def)
  then obtain i rest where srt: "sort_key ?f ?xs = i # rest"
    by (cases "sort_key ?f ?xs") simp_all
  from assms(1) srt have r: "r = checkout t1 service (ns ! i)" and pm': "numbers pm' = ns[i := r]"
    unfolding get_reusable_number_def ns_def Let_def
    by (simp_all add: ns_def[symmetric] del: numbers_cleanup_expired_numbers) auto
  from sort_key_head_least[OF srt] have i: "i \<in> set ?xs" and mn: "\<forall>j\<in>set ?xs. ?f i \<le> ?f j"
    by blast+
  have sx: "sorted ?xs" by (rule sorted_wrt_filter) simp
  have "\<forall>j<length ns. valid_number t1 service (ns ! j) \<longrightarrow>
                  times_used (ns ! i) \<le> times_used (ns ! j)
                  \<and> (times_used (ns ! j) = times_used (ns ! i) \<longrightarrow> i \<le> j)"
  proof (intro allI impI conjI)
    fix j assume "j < length ns" "valid_number t1 service (ns ! j)"
    then have j: "j \<in> set ?xs" by simp
    with mn show "times_used (ns ! i) \<le> times_used (ns ! j)" by blast
    assume "times_used (ns ! j) = times_used (ns ! i)"
    with sort_key_head_first[OF srt sx j] show "i \<le> j" by simp
  qed
  with i r pm' show ?thesis by auto
qed

lemma example_get_reusable_number:
  "get_reusable_number 200 201 ''go'' example_manager =
     (Some (checkout 200 ''go'' (example_numbers ! 1)),
      \<lparr>numbers = example_numbers[1 := checkout 200 ''go'' (example_numbers ! 1)],
       storage_file = example_numbers[1 := checkout 200 ''go'' (example_numbers ! 1)],
       file_writes = 2\<rparr>)"
  by (simp add: get_reusable_number_def cleanup_expired_numbers_def save_numbers_def
      example_manager_def example_numbers_def valid_number_def reuse_window_def checkout_def
      Let_def)

lemma get_reusable_number_None:
  assumes "fst (get_reusable_number t1 t2 service pm) = None"
  shows "\<forall>n\<in>set (numbers (cleanup_expired_numbers t2 pm)). \<not> valid_number t1 service n"
proof -
  let ?ns = "numbers (cleanup_expired_numbers t2 pm)"
  let ?f = "\<lambda>i. times_used (?ns ! i)"
  let ?xs = "filter (\<lambda>i. valid_number t1 service (?ns ! i)) [0..<length ?ns]"
  from assms have "sort_key ?f ?xs = []"
    unfolding get_reusable_number_def Let_def
    by (cases "sort_key ?f ?xs") simp_all
  then have "set (sort_key ?f ?xs) = {}" by (simp del: set_sort)
  then have e: "set ?xs = {}" by (simp only: set_sort)
  show ?thesis
  proof
    fix n assume "n \<in> set ?ns"
    then obtain i where i: "i < length ?ns" and n: "n = ?ns ! i"
      by (auto simp: in_set_conv_nth simp del: numbers_cleanup_expired_numbers)
    show "\<not> valid_number t1 service n"
    proof
      assume "valid_number t1 service n"
      with i n have "i \<in> set ?xs" by (simp del: numbers_cleanup_expired_numbers)
      with e show False by simp
    qed
  qed
qed

text \<open>
  In a store whose entries were not last used before their first use, read by a clock that
  does not run backwards between the two readings, the test of the selection loop on
  \<open>last_used\<close> refuses no entry that the purge has kept.
\<close>

lemma last_used_purged:
  assumes "store_inv pm" and "t1 \<le> t2"
    and "n \<in> set (numbers pm)" and "t2 - first_used n < reuse_window"
  shows "t1 - last_used n < reuse_window"
proof -
  from assms(1,3) have "first_used n \<le> last_used n"
    by (simp add: store_inv_def list_all_iff)
  with assms(2,4) show ?thesis by linarith
qed

lemma valid_number_purged:
  assumes "store_inv pm" and "t1 \<le> t2"
    and "n \<in> set (numbers (cleanup_expired_numbers t2 pm))"
  shows "valid_number t1 service n \<longleftrightarrow> service \<notin> set (services n)"
proof -
  from assms(3) have "n \<in> set (numbers pm)" and "t2 - first_used n < reuse_window"
    by simp_all
  with assms(1,2) have "t1 - last_used n < reuse_window" by (rule last_used_purged)
  then show ?thesis by (simp add: valid_number_def)
qed

lemma mixed_get_reusable_number:
  "get_reusable_number 2000 2001 ''go'' mixed_manager =
     (Some (checkout 2000 ''go'' (mixed_numbers ! 2)),
      \<lparr>numbers = [mixed_numbers ! 1, checkout 2000 ''go'' (mixed_numbers ! 2),
                  mixed_numbers ! 3],
       storage_file = [mixed_numbers ! 1, checkout 2000 ''go'' (mixed_numbers ! 2),
                       mixed_numbers ! 3],
       file_writes = 2\<rparr>)"
  by (simp add: get_reusable_number_def cleanup_expired_numbers_def save_numbers_def
      mixed_manager_def mixed_numbers_def valid_number_def reuse_window_def checkout_def
      Let_def)

lemma mixed_manager_inv: "store_inv mixed_manager"
  by (simp add: store_inv_def mixed_manager_def mixed_numbers_def)

lemma skewed_purge:
  "numbers (cleanup_expired_numbers 2795 skewed_manager) = skewed_numbers"
  by (simp add: skewed_manager_def skewed_numbers_def reuse_window_def)

text \<open>
  C7, as the code has it: \<open>get_reusable_number service\<close> never returns an entry that was
  already tagged with \<open>service\<close>: what it returns is the checked-out copy of a stored entry
  whose services did not contain it. In a store where no entry was last used before its
  first use, and with a clock that does not run backwards between the two readings of the
  call, the eligible entries are the entries kept by the purge that are not tagged with
  \<open>service\<close>: when there is none, nothing is returned; otherwise the entry returned is one
  of them with the least \<open>times_used\<close>, and of those the first in store order.
\<close>

theorem get_reusable_number_least_used:
  "(\<forall>r. fst (get_reusable_number t1 t2 service pm) = Some r \<longrightarrow>
        (\<exists>n\<in>set (numbers pm). service \<notin> set (services n) \<and> r = checkout t1 service n))
   \<and> (store_inv pm \<and> t1 \<le> t2 \<longrightarrow>
        (let ns = numbers (cleanup_expired_numbers t2 pm) in
         case fst (get_reusable_number t1 t2 service pm) of
           None \<Rightarrow> \<forall>n\<in>set ns. service \<in> set (services n)
         | Some r \<Rightarrow>
             \<exists>i<length ns. service \<notin> set (services (ns ! i))
                \<and> r = checkout t1 service (ns ! i)
                \<and> (\<forall>j<length ns. service \<notin> set (services (ns ! j)) \<longrightarrow>
                      times_used (ns ! i) \<le> times_used (ns ! j)
                      \<and> (times_used (ns ! j) = times_used (ns ! i) \<longrightarrow> i \<le> j))))"
proof (intro conjI allI impI)
  let ?ns = "numbers (cleanup_expired_numbers t2 pm)"
  let ?g = "get_reusable_number t1 t2 service pm"
  have sel: "\<exists>i<length ?ns. valid_number t1 service (?ns ! i) \<and> r = checkout t1 service (?ns ! i)
           \<and> (\<forall>j<length ?ns. valid_number t1 service (?ns ! j) \<longrightarrow>
                  times_used (?ns ! i) \<le> times_used (?ns ! j)
                  \<and> (times_used (?ns ! j) = times_used (?ns ! i) \<longrightarrow> i \<le> j))"
    if "fst ?g = Some r" for r
  proof -
    from that have "?g = (Some r, snd ?g)" by (simp add: prod_eq_iff)
    from get_reusable_number_Some[OF this] show ?thesis by blast
  qed
  {
    fix r assume "fst ?g = Some r"
    from sel[OF this] obtain i where i: "i < length ?ns"
      and v: "valid_number t1 service (?ns ! i)" and r: "r = checkout t1 service (?ns ! i)"
      by blast
    from i have "?ns ! i \<in> set ?ns" by (rule nth_mem)
    then have "?ns ! i \<in> set (numbers pm)" by simp
    moreover from v have "service \<notin> set (services (?ns ! i))"
      unfolding valid_number_def by (rule conjunct2)
    ultimately show "\<exists>n\<in>set (numbers pm). service \<notin> set (services n) \<and> r = checkout t1 service n"
      using r by blast
  }
  assume h: "store_inv pm \<and> t1 \<le> t2"
  have eq: "valid_number t1 service n \<longleftrightarrow> service \<notin> set (services n)" if "n \<in> set ?ns" for n
    using h that by (intro valid_number_purged) simp_all
  show "let ns = ?ns in
         case fst ?g of
           None \<Rightarrow> \<forall>n\<in>set ns. service \<in> set (services n)
         | Some r \<Rightarrow>
             \<exists>i<length ns. service \<notin> set (services (ns ! i))
                \<and> r = checkout t1 service (ns ! i)
                \<and> (\<forall>j<length ns. service \<notin> set (services (ns ! j)) \<longrightarrow>
                      times_used (ns ! i) \<le> times_used (ns ! j)
                      \<and> (times_used (ns ! j) = times_used (ns ! i) \<longrightarrow> i \<le> j))"
  proof (cases "fst ?g")
    case None
    from get_reusable_number_None[OF this] eq
    have "\<forall>n\<in>set ?ns. service \<in> set (services n)" by blast
    with None show ?thesis unfolding Let_def by (simp del: numbers_cleanup_expired_numbers)
  next
    case (Some r)
    from sel[OF this] obtain i where i: "i < length ?ns"
      and v: "valid_number t1 service (?ns ! i)" and r: "r = checkout t1 service (?ns ! i)"
      and m: "\<forall>j<length ?ns. valid_number t1 service (?ns ! j) \<longrightarrow>
                  times_used (?ns ! i) \<le> times_used (?ns ! j)
                  \<and> (times_used (?ns ! j) = times_used (?ns ! i) \<longrightarrow> i \<le> j)"
      by blast
    from v have u: "service \<notin> set (services (?ns ! i))"
      unfolding valid_number_def by (rule conjunct2)
    have m': "\<forall>j<length ?ns. service \<notin> set (services (?ns ! j)) \<longrightarrow>
                  times_used (?ns ! i) \<le> times_used (?ns ! j)
                  \<and> (times_used (?ns ! j) = times_used (?ns ! i) \<longrightarrow> i \<le> j)"
    proof (intro allI impI)
      fix j assume j: "j < length ?ns" and "service \<notin> set (services (?ns ! j))"
      moreover from j have "?ns ! j \<in> set ?ns" by (rule nth_mem)
      ultimately have "valid_number t1 service (?ns ! j)" using eq by blast
      with m j show "times_used (?ns ! i) \<le> times_used (?ns ! j)
                  \<and> (times_used (?ns ! j) = times_used (?ns ! i) \<longrightarrow> i \<le> j)"
        by blast
    qed
    have "\<exists>i<length ?ns. service \<notin> set (services (?ns ! i))
                \<and> r = checkout t1 service (?ns ! i)
                \<and> (\<forall>j<length ?ns. service \<notin> set (services (?ns ! j)) \<longrightarrow>
                      times_used (?ns ! i) \<le> times_used (?ns ! j)
                      \<and> (times_used (?ns ! j) = times_used (?ns ! i) \<longrightarrow> i \<le> j))"
      using i u r m' by (intro exI[of _ i] conjI)
    with Some show ?thesis unfolding Let_def by (simp del: numbers_cleanup_expired_numbers)
  qed
qed

text \<open>
  At time 2000 the store \<open>mixed_manager\<close> holds, after the purge, the entry tagged \<open>go\<close>
  (used once) and the two entries used three times: the first of these two is returned.
\<close>

theorem get_reusable_number_least_used_witness:
  "store_inv mixed_manager \<and> (2000::real) \<le> 2001
   \<and> ''go'' \<in> set (services (mixed_numbers ! 1))
   \<and> times_used (mixed_numbers ! 1) < times_used (mixed_numbers ! 2)
   \<and> times_used (mixed_numbers ! 2) = times_used (mixed_numbers ! 3)
   \<and> get_reusable_number 2000 2001 ''go'' mixed_manager =
       (Some (checkout 2000 ''go'' (mixed_numbers ! 2)),
        \<lparr>numbers = [mixed_numbers ! 1, checkout 2000 ''go'' (mixed_numbers ! 2),
                    mixed_numbers ! 3],
         storage_file = [mixed_numbers ! 1, checkout 2000 ''go'' (mixed_numbers ! 2),
                         mixed_numbers ! 3],
         file_writes = 2\<rparr>)
   \<and> (let ns = numbers (cleanup_expired_numbers 2001 mixed_manager) in
         case fst (get_reusable_number 2000 2001 ''go'' mixed_manager) of
           None \<Rightarrow> \<forall>n\<in>set ns. ''go'' \<in> set (services n)
         | Some r \<Rightarrow>
             \<exists>i<length ns. ''go'' \<notin> set (services (ns ! i))
                \<and> r = checkout 2000 ''go'' (ns ! i)
                \<and> (\<forall>j<length ns. ''go'' \<notin> set (services (ns ! j)) \<longrightarrow>
                      times_used (ns ! i) \<le> times_used (ns ! j)
                      \<and> (times_used (ns ! j) = times_used (ns ! i) \<longrightarrow> i \<le> j)))"
proof -
  have h: "store_inv mixed_manager \<and> (2000::real) \<le> 2001"
    using mixed_manager_inv by simp
  from get_reusable_number_least_used [of 2000 2001 "''go''" mixed_manager, THEN conjunct2,
      rule_format, OF h]
    h mixed_get_reusable_number
  show ?thesis by (simp add: mixed_numbers_def)
qed

text \<open>
  Least use among the untagged entries is lost in a store written while the clock stepped
  back. At time 2795 both
  entries of \<open>skewed_manager\<close> are kept by the purge and neither is tagged \<open>go\<close>; the
  first has been used twice, the second five times. The second is returned, since the
  first was last used more than a window ago.
\<close>

theorem get_reusable_number_least_used_counterexample:
  "numbers (cleanup_expired_numbers 2795 skewed_manager) = skewed_numbers
   \<and> ''go'' \<notin> set (services (skewed_numbers ! 0))
   \<and> ''go'' \<notin> set (services (skewed_numbers ! 1))
   \<and> times_used (skewed_numbers ! 0) < times_used (skewed_numbers ! 1)
   \<and> fst (get_reusable_number 2795 2795 ''go'' skewed_manager)
       = Some (checkout 2795 ''go'' (skewed_numbers ! 1))
   \<and> checkout 2795 ''go'' (skewed_numbers ! 1) \<noteq> checkout 2795 ''go'' (skewed_numbers ! 0)"
  by (simp add: get_reusable_number_def cleanup_expired_numbers_def save_numbers_def
      skewed_manager_def skewed_numbers_def valid_number_def reuse_window_def checkout_def
      Let_def)

text \<open>
  C8, as the code has it: an entry whose first use lies a full reuse window or more before
  the clock reading of the purge is never returned by \<open>get_reusable_number\<close>, however
  recent its last use: the entry returned is the checked-out copy of a stored entry that
  the purge, which looks at \<open>first_used\<close>, has kept, and no expired entry is left in the
  store. The selection loop then measures a second window, from \<open>last_used\<close>, which the
  entry returned has passed too; this second test refuses no entry kept by the purge when
  no entry of the store was last used before its first use and the clock does not run
  backwards between the two readings.
\<close>

theorem get_reusable_number_not_expired:
  assumes "get_reusable_number t1 t2 service pm = (Some r, pm')"
  shows "t2 - first_used r < reuse_window
         \<and> (t1 \<le> t2 \<longrightarrow> t1 - first_used r < reuse_window)
         \<and> (\<exists>n\<in>set (numbers pm). r = checkout t1 service n
               \<and> t2 - first_used n < reuse_window \<and> t1 - last_used n < reuse_window)
         \<and> (\<forall>n\<in>set (numbers pm). reuse_window \<le> t2 - first_used n \<longrightarrow>
               r \<noteq> checkout t1 service n \<and> n \<notin> set (numbers pm'))
         \<and> list_all (\<lambda>n. t2 - first_used n < reuse_window) (numbers pm')
         \<and> (store_inv pm \<and> t1 \<le> t2 \<longrightarrow>
               (\<forall>n\<in>set (numbers pm). t2 - first_used n < reuse_window \<longrightarrow>
                   t1 - last_used n < reuse_window))"
proof -
  let ?ns = "numbers (cleanup_expired_numbers t2 pm)"
  from get_reusable_number_Some[OF assms] obtain i where i: "i < length ?ns"
    and v: "valid_number t1 service (?ns ! i)"
    and r: "r = checkout t1 service (?ns ! i)" and pm': "numbers pm' = ?ns[i := r]"
    by blast
  from i have "?ns ! i \<in> set ?ns" by (rule nth_mem)
  then have mem: "?ns ! i \<in> set (numbers pm)"
    and fresh: "t2 - first_used (?ns ! i) < reuse_window"
    by simp_all
  from v have recent: "t1 - last_used (?ns ! i) < reuse_window"
    unfolding valid_number_def by (rule conjunct1)
  have fr: "first_used r = first_used (?ns ! i)" unfolding r by (simp add: checkout_def)
  have c1: "t2 - first_used r < reuse_window" using fr fresh by simp
  then have c2: "t1 \<le> t2 \<longrightarrow> t1 - first_used r < reuse_window" by linarith
  have c3: "\<exists>n\<in>set (numbers pm). r = checkout t1 service n
               \<and> t2 - first_used n < reuse_window \<and> t1 - last_used n < reuse_window"
    using mem r fresh recent by (intro bexI[of _ "?ns ! i"] conjI)
  have "\<forall>n\<in>set (?ns[i := r]). t2 - first_used n < reuse_window"
  proof
    fix n assume "n \<in> set (?ns[i := r])"
    with set_update_subset_insert[of ?ns i r] have "n \<in> insert r (set ?ns)"
      by (rule subsetD)
    then have "n = r \<or> n \<in> set ?ns" by (simp del: numbers_cleanup_expired_numbers)
    then show "t2 - first_used n < reuse_window"
    proof
      assume "n = r" with c1 show ?thesis by simp
    next
      assume "n \<in> set ?ns" then show ?thesis by simp
    qed
  qed
  then have c5: "list_all (\<lambda>n. t2 - first_used n < reuse_window) (numbers pm')"
    unfolding pm' list_all_iff .
  have c4: "\<forall>n\<in>set (numbers pm). reuse_window \<le> t2 - first_used n \<longrightarrow>
               r \<noteq> checkout t1 service n \<and> n \<notin> set (numbers pm')"
  proof (intro ballI impI conjI)
    fix n :: reusable_number
    assume n: "reuse_window \<le> t2 - first_used n"
    show "r \<noteq> checkout t1 service n"
    proof
      assume "r = checkout t1 service n"
      then have "first_used r = first_used n" by (simp add: checkout_def)
      with c1 n show False by simp
    qed
    show "n \<notin> set (numbers pm')"
    proof
      assume "n \<in> set (numbers pm')"
      with c5 have "t2 - first_used n < reuse_window" by (simp add: list_all_iff)
      with n show False by simp
    qed
  qed
  have c6: "store_inv pm \<and> t1 \<le> t2 \<longrightarrow>
               (\<forall>n\<in>set (numbers pm). t2 - first_used n < reuse_window \<longrightarrow>
                   t1 - last_used n < reuse_window)"
    using last_used_purged by blast
  from c1 c2 c3 c4 c5 c6 show ?thesis by (intro conjI)
qed

text \<open>
  In \<open>mixed_manager\<close> the first entry is expired at the purge of time 2001, although it
  was last used at time 1990, is not tagged \<open>go\<close> and has been used less often than the
  entry returned: it is neither returned nor kept.
\<close>

theorem get_reusable_number_not_expired_witness:
  "get_reusable_number 2000 2001 ''go'' mixed_manager =
     (Some (checkout 2000 ''go'' (mixed_numbers ! 2)),
      \<lparr>numbers = [mixed_numbers ! 1, checkout 2000 ''go'' (mixed_numbers ! 2),
                  mixed_numbers ! 3],
       storage_file = [mixed_numbers ! 1, checkout 2000 ''go'' (mixed_numbers ! 2),
                       mixed_numbers ! 3],
       file_writes = 2\<rparr>)
   \<and> mixed_numbers ! 0 \<in> set (numbers mixed_manager)
   \<and> reuse_window \<le> 2001 - first_used (mixed_numbers ! 0)
   \<and> 2000 - last_used (mixed_numbers ! 0) < reuse_window
   \<and> ''go'' \<notin> set (services (mixed_numbers ! 0))
   \<and> times_used (mixed_numbers ! 0) < times_used (mixed_numbers ! 2)
   \<and> checkout 2000 ''go'' (mixed_numbers ! 2) \<noteq> checkout 2000 ''go'' (mixed_numbers ! 0)
   \<and> mixed_numbers ! 0 \<notin> set [mixed_numbers ! 1, checkout 2000 ''go'' (mixed_numbers ! 2),
                                 mixed_numbers ! 3]
   \<and> 2001 - first_used (checkout 2000 ''go'' (mixed_numbers ! 2)) < reuse_window
   \<and> store_inv mixed_manager \<and> (2000::real) \<le> 2001
   \<and> mixed_numbers ! 3 \<in> set (numbers mixed_manager)
   \<and> 2001 - first_used (mixed_numbers ! 3) < reuse_window
   \<and> 2000 - last_used (mixed_numbers ! 3) < reuse_window"
proof -
  note t = get_reusable_number_not_expired [OF mixed_get_reusable_number]
  have m: "mixed_numbers ! 0 \<in> set (numbers mixed_manager)"
    by (simp add: mixed_manager_def mixed_numbers_def)
  have e: "reuse_window \<le> 2001 - first_used (mixed_numbers ! 0)"
    by (simp add: mixed_numbers_def reuse_window_def)
  have o: "2000 - last_used (mixed_numbers ! 0) < reuse_window
           \<and> ''go'' \<notin> set (services (mixed_numbers ! 0))
           \<and> times_used (mixed_numbers ! 0) < times_used (mixed_numbers ! 2)"
    by (simp add: mixed_numbers_def reuse_window_def)
  have h: "store_inv mixed_manager \<and> (2000::real) \<le> 2001"
    using mixed_manager_inv by simp
  from t have c1: "2001 - first_used (checkout 2000 ''go'' (mixed_numbers ! 2)) < reuse_window"
    by (rule conjunct1)
  from t have "\<forall>n\<in>set (numbers mixed_manager). reuse_window \<le> 2001 - first_used n \<longrightarrow>
               checkout 2000 ''go'' (mixed_numbers ! 2) \<noteq> checkout 2000 ''go'' n
               \<and> n \<notin> set (numbers \<lparr>numbers = [mixed_numbers ! 1,
                                      checkout 2000 ''go'' (mixed_numbers ! 2), mixed_numbers ! 3],
                    storage_file = [mixed_numbers ! 1, checkout 2000 ''go'' (mixed_numbers ! 2),
                                    mixed_numbers ! 3],
                    file_writes = 2\<rparr>)"
    by blast
  with m e have c4: "checkout 2000 ''go'' (mixed_numbers ! 2) \<noteq> checkout 2000 ''go'' (mixed_numbers ! 0)
       \<and> mixed_numbers ! 0 \<notin> set [mixed_numbers ! 1, checkout 2000 ''go'' (mixed_numbers ! 2),
                                    mixed_numbers ! 3]"
    by simp
  have m3: "mixed_numbers ! 3 \<in> set (numbers mixed_manager)"
    and f3: "2001 - first_used (mixed_numbers ! 3) < reuse_window"
    by (simp_all add: mixed_manager_def mixed_numbers_def reuse_window_def)
  from t h have "\<forall>n\<in>set (numbers mixed_manager). 2001 - first_used n < reuse_window \<longrightarrow>
          2000 - last_used n < reuse_window"
    by blast
  with m3 f3 have c6: "2000 - last_used (mixed_numbers ! 3) < reuse_window" by blast
  from mixed_get_reusable_number m e o c4 c1 h m3 f3 c6 show ?thesis by blast
qed

text \<open>
  The window is measured from the last use as well. At time 2795 the first entry of
  \<open>skewed_manager\<close> is inside the window from its first use and is not tagged \<open>fb\<close>, the
  other entry is tagged \<open>fb\<close>; nothing is returned, since the first entry was last used
  more than a window ago.
\<close>

theorem get_reusable_number_not_expired_counterexample:
  "skewed_numbers ! 0 \<in> set (numbers skewed_manager)
   \<and> 2795 - first_used (skewed_numbers ! 0) < reuse_window
   \<and> ''fb'' \<notin> set (services (skewed_numbers ! 0))
   \<and> reuse_window \<le> 2795 - last_used (skewed_numbers ! 0)
   \<and> fst (get_reusable_number 2795 2795 ''fb'' skewed_manager) = None"
  by (simp add: get_reusable_number_def cleanup_expired_numbers_def save_numbers_def
      skewed_manager_def skewed_numbers_def valid_number_def reuse_window_def checkout_def
      Let_def)

subsection \<open>The order of the two timestamps\<close>

lemma store_inv_add_number:
  assumes "store_inv pm" "not_before_first_use t pm"
  shows "store_inv (snd (add_number t p c a service pm))"
proof (cases "truthy p \<and> truthy c \<and> truthy a")
  case False
  then have "add_number t p c a service pm = (False, pm)"
    by (cases p; cases c; cases a) auto
  with assms show ?thesis by simp
next
  case True
  then obtain p' c' a' where pca: "p = Some p'" "c = Some c'" "a = Some a'"
    "p' \<noteq> []" "c' \<noteq> []" "a' \<noteq> []"
    by (cases p; cases c; cases a) auto
  show ?thesis
  proof (cases "update_first p' (touch t service) (numbers pm)")
    case None
    with pca assms show ?thesis
      by (simp add: store_inv_def new_number_def)
  next
    case (Some ns)
    have "list_all (\<lambda>number. first_used number \<le> last_used number \<and> first_used number \<le> t)
            (numbers pm)"
      using assms by (simp add: store_inv_def not_before_first_use_def list_all_iff)
    from update_first_list_all[OF Some this]
    have "list_all (\<lambda>number. first_used number \<le> last_used number \<and> first_used number \<le> t) ns"
      by (simp add: touch_def)
    with pca Some show ?thesis
      by (simp add: store_inv_def list_all_iff)
  qed
qed

lemma store_inv_mark_number_used:
  assumes "store_inv pm" "not_before_first_use t pm"
  shows "store_inv (snd (mark_number_used t p service pm))"
proof (cases "update_first p (touch t service) (numbers pm)")
  case None
  with assms show ?thesis by (simp add: mark_number_used_def)
next
  case (Some ns)
  have "list_all (\<lambda>number. first_used number \<le> last_used number \<and> first_used number \<le> t)
          (numbers pm)"
    using assms by (simp add: store_inv_def not_before_first_use_def list_all_iff)
  from update_first_list_all[OF Some this]
  have "list_all (\<lambda>number. first_used number \<le> last_used number \<and> first_used number \<le> t) ns"
    by (simp add: touch_def)
  with Some show ?thesis
    by (simp add: store_inv_def list_all_iff mark_number_used_def)
qed

lemma store_inv_remove_number:
  "store_inv pm \<Longrightarrow> store_inv (snd (remove_number p pm))"
  by (auto simp: remove_number_def store_inv_def split: option.splits
      dest: delete_first_list_all)

lemma store_inv_cleanup_expired_numbers:
  "store_inv pm \<Longrightarrow> store_inv (cleanup_expired_numbers t pm)"
  by (auto simp: store_inv_def list_all_iff)

lemma store_inv_get_reusable_number:
  assumes "store_inv pm" "not_before_first_use t pm"
  shows "store_inv (snd (get_reusable_number t t2 service pm))"
proof -
  let ?ns = "numbers (cleanup_expired_numbers t2 pm)"
  let ?xs = "filter (\<lambda>i. valid_number t service (?ns ! i)) [0..<length ?ns]"
  have a: "list_all (\<lambda>number. first_used number \<le> last_used number) ?ns"
    using assms by (auto simp: store_inv_def list_all_iff)
  have b: "list_all (\<lambda>number. first_used number \<le> t) ?ns"
    using assms by (auto simp: not_before_first_use_def list_all_iff)
  show ?thesis
  proof (cases "sort_key (\<lambda>i. times_used (?ns ! i)) ?xs")
    case Nil
    then show ?thesis using a
      by (simp add: get_reusable_number_def store_inv_def Let_def)
  next
    case (Cons i rest)
    then have "i \<in> set (sort_key (\<lambda>i. times_used (?ns ! i)) ?xs)"
      by simp
    then have "i < length ?ns" by simp
    then have "?ns ! i \<in> set ?ns" by (rule nth_mem)
    with b have "first_used (?ns ! i) \<le> t"
      by (simp add: list_all_iff del: numbers_cleanup_expired_numbers)
    then have "first_used (checkout t service (?ns ! i))
                 \<le> last_used (checkout t service (?ns ! i))"
      by (simp add: checkout_def)
    with a have "list_all (\<lambda>number. first_used number \<le> last_used number)
                   (?ns[i := checkout t service (?ns ! i)])"
      by (rule list_all_list_update)
    with Cons show ?thesis
      by (simp add: get_reusable_number_def store_inv_def Let_def)
  qed
qed

lemma example_manager_inv:
  "store_inv example_manager \<and> not_before_first_use 200 example_manager"
  by (simp add: store_inv_def not_before_first_use_def example_manager_def
      example_numbers_def)

text \<open>
  C9, as the code has it: \<open>first_used \<le> last_used\<close> holds of every entry of the empty
  store, and \<open>remove_number\<close> and the purge of expired entries keep it. \<open>add_number\<close>,
  \<open>get_reusable_number\<close> and \<open>mark_number_used\<close> write the clock reading into
  \<open>last_used\<close>: they keep it when that reading does not lie before the first use of an
  entry already stored.
\<close>

theorem store_inv_preserved:
  assumes "store_inv pm" and "not_before_first_use current_time pm"
  shows "store_inv (pm\<lparr>numbers := []\<rparr>)
       \<and> store_inv (snd (add_number current_time p c a service pm))
       \<and> store_inv (snd (get_reusable_number current_time cleanup_time service pm))
       \<and> store_inv (snd (mark_number_used current_time q service pm))
       \<and> store_inv (snd (remove_number q pm))
       \<and> store_inv (cleanup_expired_numbers cleanup_time pm)"
proof (intro conjI)
  show "store_inv (pm\<lparr>numbers := []\<rparr>)" by (simp add: store_inv_def)
  show "store_inv (snd (add_number current_time p c a service pm))"
    using assms by (rule store_inv_add_number)
  show "store_inv (snd (get_reusable_number current_time cleanup_time service pm))"
    using assms by (rule store_inv_get_reusable_number)
  show "store_inv (snd (mark_number_used current_time q service pm))"
    using assms by (rule store_inv_mark_number_used)
  show "store_inv (snd (remove_number q pm))"
    using assms(1) by (rule store_inv_remove_number)
  show "store_inv (cleanup_expired_numbers cleanup_time pm)"
    using assms(1) by (rule store_inv_cleanup_expired_numbers)
qed

theorem store_inv_preserved_witness:
  "store_inv example_manager \<and> not_before_first_use 200 example_manager
   \<and> store_inv (snd (add_number 200 (Some ''5511'') (Some ''151'') (Some ''a1'') ''gmail''
                       example_manager))
   \<and> store_inv (snd (get_reusable_number 200 201 ''gmail'' example_manager))"
proof -
  have h1: "store_inv example_manager" and h2: "not_before_first_use 200 example_manager"
    using example_manager_inv by simp_all
  from store_inv_preserved [OF h1 h2, where p = "Some ''5511''" and c = "Some ''151''"
      and a = "Some ''a1''" and service = "''gmail''" and cleanup_time = 201]
  show ?thesis using h1 h2 by blast
qed

text \<open>
  Without that condition on the clock the invariant is lost: a number added to the empty
  store at time 1000 and marked as used at a clock reading of 990 is stored with
  \<open>last_used < first_used\<close>.
\<close>

theorem store_inv_preserved_counterexample:
  "store_inv new_manager
   \<and> store_inv (snd (add_number 1000 (Some ''5511'') (Some ''151'') (Some ''a1'') ''tk''
                       new_manager))
   \<and> fst (mark_number_used 990 ''5511'' ''tk''
            (snd (add_number 1000 (Some ''5511'') (Some ''151'') (Some ''a1'') ''tk''
                    new_manager)))
   \<and> numbers (snd (mark_number_used 990 ''5511'' ''tk''
                (snd (add_number 1000 (Some ''5511'') (Some ''151'') (Some ''a1'') ''tk''
                        new_manager))))
       = [skewed_numbers ! 0]
   \<and> \<not> store_inv (snd (mark_number_used 990 ''5511'' ''tk''
                (snd (add_number 1000 (Some ''5511'') (Some ''151'') (Some ''a1'') ''tk''
                        new_manager))))"
  by (simp add: store_inv_def new_manager_def mark_number_used_def save_numbers_def
      new_number_def touch_def skewed_numbers_def)

text \<open>
  C10: when the phone number, the country code or the activation id is missing (\<open>None\<close>
  or empty), \<open>add_number\<close> returns \<open>False\<close> and leaves the manager as it was: the list
  in memory, the storage file and the count of its rewrites.
\<close>

theorem add_number_incomplete:
  "\<not> (truthy p \<and> truthy c \<and> truthy a) \<Longrightarrow> add_number t p c a service pm = (False, pm)"
  by (cases p; cases c; cases a) auto

theorem add_number_incomplete_witness:
  "\<not> (truthy (Some ''5533'') \<and> truthy (Some ''40'') \<and> truthy None)
   \<and> add_number 200 (Some ''5533'') (Some ''40'') None ''gmail'' example_manager
       = (False, example_manager)"
  using add_number_incomplete [of "Some ''5533''" "Some ''40''" None 200 "''gmail''"
      example_manager]
  by simp

section \<open>Steps of a run keep stable predicates\<close>

declare resend_loop.simps [simp del]

declare attempts_loop.simps [simp del]

lemma stable_next_tick: "stable P \<Longrightarrow> P s \<Longrightarrow> P (next_tick s)"
  by (simp add: stable_def)

lemma stable_release: "stable P \<Longrightarrow> P s \<Longrightarrow> P (s\<lparr>current_activation := None\<rparr>)"
  by (simp add: stable_def)

lemma stable_set_status: "stable P \<Longrightarrow> P s \<Longrightarrow> P (set_status aid n s)"
  by (simp add: stable_def)

lemma stable_used_countries_add: "stable P \<Longrightarrow> P s \<Longrightarrow> P (used_countries_add c s)"
  by (simp add: stable_def)

lemma stable_state: "stable P \<Longrightarrow> P s \<Longrightarrow> P (s\<lparr>state := st\<rparr>)"
  by (simp add: stable_def)

lemma stable_available: "stable P \<Longrightarrow> P s \<Longrightarrow> P (s\<lparr>available_numbers := av\<rparr>)"
  by (simp add: stable_def)

lemmas stable_rules = stable_next_tick stable_release stable_set_status
  stable_used_countries_add stable_state stable_available

lemma cancel_number_stable:
  assumes st: "stable P" and "P s"
  shows "P (cancel_number s)"
  using assms(2) unfolding cancel_number_def
  by (auto split: option.splits intro!: stable_rules[OF st])

lemma cancel_current_number_stable:
  assumes st: "stable P" and "P s"
  shows "P (cancel_current_number s)"
  using assms(2) unfolding cancel_current_number_def
  by (auto split: option.splits intro!: stable_rules[OF st])

lemma ensure_final_cleanup_stable:
  assumes st: "stable P" and "P s"
  shows "P (ensure_final_cleanup s)"
  using assms(2) unfolding ensure_final_cleanup_def
  by (auto split: option.splits intro!: cancel_number_stable[OF st])

lemma check_countries_stable:
  assumes st: "stable P"
  shows "P s \<Longrightarrow> check_countries w cs av s = (av', s') \<Longrightarrow> P s'"
proof (induction cs arbitrary: av s)
  case Nil
  then show ?case by simp
next
  case (Cons c cs)
  show ?case
  proof (cases "c \<in> used_countries s")
    case True
    with Cons show ?thesis by simp
  next
    case False
    have "P (next_tick s)" using st Cons.prems(1) by (rule stable_next_tick)
    with Cons.IH Cons.prems(2) False show ?thesis
      by (simp add: Let_def)
  qed
qed

lemma check_number_availability_stable:
  assumes st: "stable P" and "P s" and "check_number_availability w s = (r, s')"
  shows "P s'"
proof -
  obtain av s1 where c: "check_countries w (selected_countries w) [] s = (av, s1)"
    by (cases "check_countries w (selected_countries w) [] s")
  from check_countries_stable[OF st assms(2) c] have "P s1" .
  with assms(3) c show ?thesis
    by (auto simp: check_number_availability_def split: if_splits intro!: stable_rules[OF st])
qed

lemma validate_initial_conditions_stable:
  assumes st: "stable P" and "P s" and "validate_initial_conditions w s = (r, s')"
  shows "P s'"
proof -
  have "P (next_tick s)" using st assms(2) by (rule stable_next_tick)
  with assms(3) show ?thesis
    by (auto simp: validate_initial_conditions_def split: option.splits if_splits
        dest: check_number_availability_stable[OF st])
qed

lemma try_formats_stable:
  assumes st: "stable P"
  shows "P s \<Longrightarrow> try_formats w fs s = (r, s') \<Longrightarrow> P s'"
proof (induction fs arbitrary: s)
  case Nil
  then show ?case by (auto intro: cancel_number_stable[OF st])
next
  case (Cons f fs)
  have "P (next_tick s)" using st Cons.prems(1) by (rule stable_next_tick)
  with Cons show ?case by (auto split: if_splits)
qed

lemma submit_phone_number_stable:
  assumes st: "stable P" and "P s" and "submit_phone_number w s = (r, s')"
  shows "P s'"
proof -
  have "P (next_tick s)" using st assms(2) by (rule stable_next_tick)
  with assms show ?thesis
    by (auto simp: submit_phone_number_def simp del: try_formats.simps
        split: option.splits if_splits dest: try_formats_stable[OF st])
qed

lemma get_sms_code_stable:
  assumes st: "stable P"
  shows "P s \<Longrightarrow> get_sms_code w aid n s = (code, s') \<Longrightarrow> P s'"
proof (induction n arbitrary: s)
  case 0
  then show ?case by (auto intro!: stable_rules[OF st])
next
  case (Suc n)
  have "P (next_tick s)" using st Suc.prems(1) by (rule stable_next_tick)
  with Suc show ?case
    by (auto split: status_response.splits intro!: stable_rules[OF st])
qed

lemma after_resend_click_stable:
  assumes st: "stable P" and "P s" and "after_resend_click w aid start s = (r, s')"
  shows "P s'"
proof -
  have 1: "P (next_tick s)" using st assms(2) by (rule stable_next_tick)
  have 2: "P (next_tick (next_tick s))" using st 1 by (rule stable_next_tick)
  show ?thesis
  proof (cases "clock w (tick s) - start \<ge> sms_global_timeout")
    case True
    with assms(3) 1 show ?thesis by (simp add: after_resend_click_def)
  next
    case False
    obtain ok s2 where sub: "(if phone_input_shown w (tick (next_tick s))
                  then submit_phone_number w (next_tick (next_tick s))
                  else (True, next_tick (next_tick s))) = (ok, s2)"
      by (cases "(if phone_input_shown w (tick (next_tick s))
                  then submit_phone_number w (next_tick (next_tick s))
                  else (True, next_tick (next_tick s)))")
    then have s2: "P s2" using 2
      by (auto split: if_splits dest: submit_phone_number_stable[OF st])
    then have 3: "P (next_tick s2)" using st by (simp add: stable_next_tick)
    from assms(3) False sub s2 3 show ?thesis
      unfolding after_resend_click_def
      by (auto simp: Let_def split: if_splits prod.splits dest: get_sms_code_stable[OF st])
  qed
qed

lemma resend_attempt_stable:
  assumes st: "stable P" and "P s" and "resend_attempt w aid start s = (r, s')"
  shows "P s'"
proof -
  have 1: "P (next_tick s)" using st assms(2) by (rule stable_next_tick)
  have 2: "P (next_tick (next_tick s))" using st 1 by (rule stable_next_tick)
  have 3: "P (next_tick (next_tick (next_tick s)))" using st 2 by (rule stable_next_tick)
  have 4: "P (next_tick (next_tick (next_tick (next_tick s))))" using st 3 by (rule stable_next_tick)
  from assms(3) 1 2 3 4 show ?thesis
    unfolding resend_attempt_def
    by (auto simp: Let_def split: if_splits dest: after_resend_click_stable[OF st])
qed

lemma resend_loop_stable:
  assumes st: "stable P"
  shows "P s \<Longrightarrow> resend_loop w aid start n code s = (code', s') \<Longrightarrow> P s'"
proof (induction w aid start n code s rule: resend_loop.induct)
  case (1 w aid start n code s)
  have t: "P (next_tick s)" using st "1.prems"(1) by (rule stable_next_tick)
  show ?case
  proof (cases "no_code code \<and> n < 2")
    case False
    with "1.prems" show ?thesis by (simp add: resend_loop.simps[of w aid start n code s])
  next
    case True
    note go = this
    show ?thesis
    proof (cases "clock w (tick s) - start < sms_global_timeout")
      case False
      with go "1.prems" t show ?thesis by (simp add: resend_loop.simps[of w aid start n code s])
    next
      case True
      obtain r s1 where ra: "resend_attempt w aid start (next_tick s) = (r, s1)"
        by (cases "resend_attempt w aid start (next_tick s)")
      from resend_attempt_stable[OF st t ra] have s1: "P s1" .
      show ?thesis
      proof (cases r)
        case Break
        with go True ra s1 "1.prems"(2) show ?thesis
          by (simp add: resend_loop.simps[of w aid start n code s])
      next
        case Continue
        with go True ra "1.prems"(2)
        have "resend_loop w aid start (n + 1) code s1 = (code', s')"
          by (simp add: resend_loop.simps[of w aid start n code s])
        with "1.IH"(1)[OF go True ra[symmetric] Continue s1] show ?thesis by simp
      next
        case (Polled c)
        with go True ra "1.prems"(2)
        have "resend_loop w aid start (n + 1) c s1 = (code', s')"
          by (simp add: resend_loop.simps[of w aid start n code s])
        with "1.IH"(2)[OF go True ra[symmetric] Polled s1] show ?thesis by simp
      qed
    qed
  qed
qed

lemma store_number_stable:
  assumes st: "stable P" and ss: "store_stable P" and "P s"
  shows "P (store_number w s)"
proof -
  have "P (next_tick s)" using st assms(3) by (rule stable_next_tick)
  then have "\<And>pm. P ((next_tick s)\<lparr>phone_manager := pm\<rparr>)"
    using ss by (simp add: store_stable_def)
  with assms(3) show ?thesis
    by (simp add: store_number_def split: option.splits)
qed

lemma enter_code_stable:
  assumes st: "stable P" and "P s" and "enter_code w aid start code s = (r, s')"
    and "r \<Longrightarrow> store_stable P"
  shows "P s'"
proof -
  have 1: "P (next_tick s)" using st assms(2) by (rule stable_next_tick)
  have 2: "P (next_tick (next_tick s))" using st 1 by (rule stable_next_tick)
  have 3: "P (next_tick (next_tick (next_tick s)))" using st 2 by (rule stable_next_tick)
  note c = cancel_current_number_stable[OF st]
  show ?thesis
  proof (cases r)
    case False
    with assms(3) c[OF 1] c[OF 2] c[OF 3] show ?thesis
      by (auto simp: enter_code_def split: if_splits)
  next
    case True
    with assms(4) have ss: "store_stable P" .
    have "P ((set_status aid 8 (next_tick (next_tick (next_tick s))))\<lparr>state := COMPLETED\<rparr>)"
      using assms(2) by (intro stable_rules[OF st])
    from store_number_stable[OF st ss this, of w] assms(3) True show ?thesis
      by (auto simp: enter_code_def split: if_splits)
  qed
qed

lemma handle_sms_verification_stable:
  assumes st: "stable P" and "P s" and "handle_sms_verification w s = (r, s')"
    and "r \<Longrightarrow> store_stable P"
  shows "P s'"
proof (cases "current_activation s")
  case None
  with assms(2,3) show ?thesis by (simp add: handle_sms_verification_def)
next
  case (Some a)
  let ?s1 = "s\<lparr>state := WAITING_SMS\<rparr>"
  have 1: "P (next_tick ?s1)" using assms(2) by (intro stable_rules[OF st])
  obtain c2 s2 where g: "get_sms_code w (activation_id a) 6 (next_tick ?s1) = (c2, s2)"
    by (cases "get_sms_code w (activation_id a) 6 (next_tick ?s1)")
  from get_sms_code_stable[OF st 1 g] have 2: "P s2" .
  obtain c3 s3 where l: "resend_loop w (activation_id a) (clock w (tick s)) 0 c2 s2 = (c3, s3)"
    by (cases "resend_loop w (activation_id a) (clock w (tick s)) 0 c2 s2")
  from resend_loop_stable[OF st 2 l] have 3: "P s3" .
  from assms(3) Some g l
  have "enter_code w (activation_id a) (clock w (tick s)) c3 s3 = (r, s')"
    by (simp add: handle_sms_verification_def Let_def)
  from enter_code_stable[OF st 3 this assms(4)] show ?thesis .
qed

lemma buy_loop_stable:
  assumes st: "stable P" and aq: "acquire_stable P"
  shows "P s \<Longrightarrow> buy_loop w rows s = (a, s')
     \<Longrightarrow> buy_free P \<or> (distinct (map fst rows) \<and> (\<forall>c\<in>set (map fst rows). c \<notin> used_countries s))
     \<Longrightarrow> P s'"
proof (induction rows arbitrary: s)
  case Nil
  then show ?case by simp
next
  case (Cons row rows)
  obtain c price where row: "row = (c, price)" by (cases row)
  let ?b = "buy_number w (tick s) c"
  let ?s1 = "emit (BuyNumber c ?b) (next_tick s)"
  have t: "P (next_tick s)" using st Cons.prems(1) by (rule stable_next_tick)
  have 1: "P ?s1"
  proof -
    from Cons.prems(3) show ?thesis
    proof
      assume "buy_free P" with t show ?thesis by (simp add: buy_free_def)
    next
      assume "distinct (map fst (row # rows)) \<and> (\<forall>c\<in>set (map fst (row # rows)). c \<notin> used_countries s)"
      then have "c \<notin> used_countries (next_tick s)" using row by (simp add: next_tick_def)
      with t aq show ?thesis by (simp add: acquire_stable_def)
    qed
  qed
  have fail: "P (used_countries_add c ?s1)" using st 1 by (rule stable_used_countries_add)
  have u: "used_countries (used_countries_add c ?s1) = insert c (used_countries s)"
    by (simp add: used_countries_add_def emit_def next_tick_def)
  have rest: "buy_free P \<or> (distinct (map fst rows)
      \<and> (\<forall>c'\<in>set (map fst rows). c' \<notin> used_countries (used_countries_add c ?s1)))"
    using Cons.prems(3) row unfolding u by auto
  have ok: "\<And>phone. P ((next_tick ?s1)\<lparr>self_phone_number := Some phone\<rparr>)"
  proof -
    fix phone
    have "P (next_tick ?s1)" using st 1 by (rule stable_next_tick)
    with aq show "P ((next_tick ?s1)\<lparr>self_phone_number := Some phone\<rparr>)"
      by (simp add: acquire_stable_def)
  qed
  show ?case
  proof (cases ?b)
    case None
    with Cons.prems(2) row have "buy_loop w rows (used_countries_add c ?s1) = (a, s')"
      by (simp add: Let_def)
    from Cons.IH[OF fail this rest] show ?thesis .
  next
    case (Some bought)
    obtain aid phone where b: "bought = (aid, phone)" by (cases bought)
    show ?thesis
    proof (cases "phone = []")
      case True
      with Cons.prems(2) row Some b have "buy_loop w rows (used_countries_add c ?s1) = (a, s')"
        by (simp add: Let_def)
      from Cons.IH[OF fail this rest] show ?thesis .
    next
      case False
      with Cons.prems(2) row Some b have "s' = (next_tick ?s1)\<lparr>self_phone_number := Some phone\<rparr>"
        by (simp add: Let_def)
      with ok show ?thesis by simp
    qed
  qed
qed

lemma map_fst_price_rows:
  "set (map fst (price_rows prices cs)) \<subseteq> set cs
   \<and> (distinct cs \<longrightarrow> distinct (map fst (price_rows prices cs)))"
  by (induction cs) (auto split: option.splits)

lemma distinct_map_fst_sort_key:
  "distinct (map fst (sort_key f xs)) = distinct (map fst xs)"
  by (simp add: distinct_map)

lemma get_new_number_stable:
  assumes rs: "run_stable w P" and "P s" and "get_new_number w s = (a, s')"
  shows "P s'"
proof -
  from rs have st: "stable P" and aq: "acquire_stable P"
    and bf: "buy_free P \<or> distinct (selected_countries w)"
    by (simp_all add: run_stable_def)
  let ?av = "filter (\<lambda>code. code \<notin> used_countries s) (selected_countries w)"
  have t: "P (next_tick s)" using st assms(2) by (rule stable_next_tick)
  show ?thesis
  proof (cases "?av = [] \<or> get_prices w (tick s) = None \<or> get_prices w (tick s) = Some []")
    case True
    with assms(2,3) t show ?thesis
      by (auto simp: get_new_number_def Let_def split: if_splits option.splits)
  next
    case False
    then obtain prices where p: "get_prices w (tick s) = Some prices" "prices \<noteq> []" "?av \<noteq> []"
      by auto
    let ?rows = "price_rows prices ?av"
    show ?thesis
    proof (cases "?rows = []")
      case True
      with assms(3) p t show ?thesis by (simp add: get_new_number_def Let_def)
    next
      case False
      with assms(3) p have bl: "buy_loop w (sort_key snd ?rows) (next_tick s) = (a, s')"
        by (simp add: get_new_number_def Let_def)
      have sub: "set (map fst ?rows) \<subseteq> set ?av" using map_fst_price_rows by blast
      have nu: "\<forall>c\<in>set (map fst (sort_key snd ?rows)). c \<notin> used_countries (next_tick s)"
      proof
        fix c assume "c \<in> set (map fst (sort_key snd ?rows))"
        then have "c \<in> set (map fst ?rows)" by simp
        with sub have "c \<in> set ?av" by blast
        then show "c \<notin> used_countries (next_tick s)" by (simp add: next_tick_def)
      qed
      have "buy_free P \<or> (distinct (map fst (sort_key snd ?rows))
              \<and> (\<forall>c\<in>set (map fst (sort_key snd ?rows)). c \<notin> used_countries (next_tick s)))"
      proof (cases "buy_free P")
        case True then show ?thesis by simp
      next
        case False
        with bf have "distinct (selected_countries w)" by simp
        then have "distinct ?av" by simp
        with map_fst_price_rows[of prices ?av] have "distinct (map fst ?rows)" by blast
        then have "distinct (map fst (sort_key snd ?rows))"
          by (simp only: distinct_map_fst_sort_key)
        with nu show ?thesis by blast
      qed
      from buy_loop_stable[OF st aq t bl this] show ?thesis .
    qed
  qed
qed

lemma acquire_and_verify_stable:
  assumes rs: "run_stable w P" and "P s" and "acquire_and_verify w s = (r, s')"
    and "r \<Longrightarrow> store_stable P"
  shows "P s'"
proof -
  from rs have st: "stable P" and aq: "acquire_stable P" by (simp_all add: run_stable_def)
  obtain a s1 where g: "get_new_number w s = (a, s1)" by (cases "get_new_number w s")
  from get_new_number_stable[OF rs assms(2) g] have 1: "P s1" .
  then have 2: "P (s1\<lparr>current_activation := a\<rparr>)" using aq by (simp add: acquire_stable_def)
  show ?thesis
  proof (cases a)
    case None
    with assms(3) g 2 show ?thesis by (simp add: acquire_and_verify_def)
  next
    case (Some act)
    obtain ok s2 where sub: "submit_phone_number w (s1\<lparr>current_activation := Some act\<rparr>) = (ok, s2)"
      by (cases "submit_phone_number w (s1\<lparr>current_activation := Some act\<rparr>)")
    from 2 Some have "P (s1\<lparr>current_activation := Some act\<rparr>)" by simp
    from submit_phone_number_stable[OF st this sub] have 3: "P s2" .
    show ?thesis
    proof (cases ok)
      case False
      with assms(3) g Some sub 3 show ?thesis by (simp add: acquire_and_verify_def)
    next
      case True
      with assms(3) g Some sub have "handle_sms_verification w s2 = (r, s')"
        by (simp add: acquire_and_verify_def)
      from handle_sms_verification_stable[OF st 3 this assms(4)] show ?thesis .
    qed
  qed
qed

lemma try_verification_cycle_stable:
  assumes rs: "run_stable w P" and "P s" and "try_verification_cycle w s = (r, s')"
    and "r \<Longrightarrow> store_stable P"
  shows "P s'"
proof -
  from rs have st: "stable P" by (simp add: run_stable_def)
  have 1: "P (next_tick s)" using st assms(2) by (rule stable_next_tick)
  have 2: "P (next_tick (next_tick s))" using st 1 by (rule stable_next_tick)
  note av = acquire_and_verify_stable[OF rs _ _ assms(4)]
  note cn = cancel_number_stable[OF st]
  from assms(3) show ?thesis
    unfolding try_verification_cycle_def check_phone_screen_def
    by (auto split: if_splits outcome.splits intro: av[OF assms(2)] av[OF 2] cn[OF 1] cn[OF 2])
qed

lemma attempts_loop_stable:
  "run_stable w P \<Longrightarrow> P s \<Longrightarrow> attempts_loop w n s = (r, s')
     \<Longrightarrow> (r \<Longrightarrow> store_stable P) \<Longrightarrow> P s'"
proof (induction w n s rule: attempts_loop.induct)
  case (1 w n s)
  note rs = "1.prems"(1) and Ps = "1.prems"(2) and run = "1.prems"(3) and ss = "1.prems"(4)
  from rs have st: "stable P" by (simp add: run_stable_def)
  have t: "P (next_tick s)" using st Ps by (rule stable_next_tick)
  note simps = attempts_loop.simps[of w n s]
  show ?case
  proof (cases "n < MAX_PHONE_ATTEMPTS")
    case False
    with Ps run show ?thesis by (simp add: simps)
  next
    case True
    note lt = this
    show ?thesis
    proof (cases "0 < n \<and> \<not> phone_screen_restored w (tick s)")
      case True
      with lt run have "attempts_loop w (n + 1) (next_tick s) = (r, s')"
        by (simp add: simps)
      from "1.IH"(1)[OF lt True rs t this ss] show ?thesis .
    next
      case False
      let ?s0 = "if 0 < n then next_tick s else s"
      have s0: "P ?s0" using t Ps by simp
      obtain ok s1 where c: "try_verification_cycle w ?s0 = (ok, s1)"
        by (cases "try_verification_cycle w ?s0")
      have eq: "attempts_loop w n s =
          (case try_verification_cycle w ?s0 of
             (True, s') \<Rightarrow> (True, s')
           | (False, s') \<Rightarrow> attempts_loop w (n + 1) s')"
        by (subst simps, subst if_P[OF lt], subst if_not_P[OF False], rule refl)
      show ?thesis
      proof (cases ok)
        case True
        with eq c run have "r = True" "s' = s1" by simp_all
        with try_verification_cycle_stable[OF rs s0 c] ss True show ?thesis by simp
      next
        case ok: False
        from try_verification_cycle_stable[OF rs s0 c] ok have s1: "P s1" by simp
        from eq c ok run have "attempts_loop w (n + 1) s1 = (r, s')"
          by simp
        moreover from ok have "ok = False" by simp
        ultimately show ?thesis
          using "1.IH"(2)[OF lt False c[symmetric] _ rs s1 _ ss] by blast
      qed
    qed
  qed
qed

lemma handle_verification_stable:
  assumes rs: "run_stable w P" and "P s" and "handle_verification w s = (r, s')"
    and "r \<Longrightarrow> store_stable P"
  shows "P s'"
proof -
  from rs have st: "stable P" by (simp add: run_stable_def)
  have 1: "P (next_tick s)" using st assms(2) by (rule stable_next_tick)
  note fc = ensure_final_cleanup_stable[OF st]
  show ?thesis
  proof (cases "phone_screen w (tick s)")
    case Raised
    have "P (cancel_current_number (next_tick s))"
      using st 1 by (rule cancel_current_number_stable)
    with assms(3) Raised 1 show ?thesis
      by (auto simp: handle_verification_def check_phone_screen_def intro: fc)
  next
    case (Returned present)
    show ?thesis
    proof (cases present)
      case False
      with assms(3) Returned 1 show ?thesis
        by (auto simp: handle_verification_def check_phone_screen_def intro: fc)
    next
      case True
      obtain ok s2 where v: "validate_initial_conditions w (next_tick s) = (ok, s2)"
        by (cases "validate_initial_conditions w (next_tick s)")
      from validate_initial_conditions_stable[OF st 1 v] have 2: "P s2" .
      show ?thesis
      proof (cases ok)
        case False
        with assms(3) Returned True v 2 show ?thesis
          by (auto simp: handle_verification_def check_phone_screen_def intro: fc)
      next
        case ok: True
        obtain r3 s3 where l: "attempts_loop w 0 s2 = (r3, s3)"
          by (cases "attempts_loop w 0 s2")
        with assms(3) Returned True v ok have r: "r = r3" and s': "s' = ensure_final_cleanup s3"
          by (simp_all add: handle_verification_def check_phone_screen_def)
        from attempts_loop_stable[OF rs 2 l] assms(4) r have "P s3" by simp
        with s' show ?thesis by (simp add: fc)
      qed
    qed
  qed
qed

subsection \<open>Running the model on a concrete world\<close>

lemma get_sms_code_numeral:
  "get_sms_code w aid (numeral k) s =
     (case get_status w (tick s) aid of
        STATUS_OK code \<Rightarrow> (Some code, set_status aid 3 (next_tick s))
      | STATUS_CANCEL \<Rightarrow> (None, next_tick s)
      | STATUS_WAIT \<Rightarrow> get_sms_code w aid (pred_numeral k) (next_tick s))"
  by (simp add: numeral_eq_Suc)

lemmas run_simps =
  handle_verification_def check_phone_screen_def validate_initial_conditions_def
  check_number_availability_def attempts_loop.simps try_verification_cycle_def
  acquire_and_verify_def get_new_number_def submit_phone_number_def
  handle_sms_verification_def resend_loop.simps resend_attempt_def after_resend_click_def
  enter_code_def store_number_def cancel_number_def cancel_current_number_def
  ensure_final_cleanup_def used_countries_add_def set_status_def emit_def next_tick_def
  MAX_PHONE_ATTEMPTS_def sms_global_timeout_def Let_def new_verification_def
  get_sms_code_numeral

lemmas world_simps =
  example_world_def rejecting_world_def no_screen_world_def no_balance_world_def
  stuck_form_world_def verification_with_store_def scarce_world_def
  excluding_verification_def

section \<open>The exclusion set\<close>

lemma excluded_append [simp]: "excluded (es @ es') = excluded es \<union> excluded es'"
  by (induction es rule: excluded.induct) auto

lemma respects_exclusion_append:
  "respects_exclusion U (es @ es')
     \<longleftrightarrow> respects_exclusion U es \<and> respects_exclusion (U \<union> excluded es) es'"
  by (induction U es rule: respects_exclusion.induct) auto

lemma exclusion_inv_same:
  "exclusion_inv U pre s \<Longrightarrow> trace s' = trace s \<Longrightarrow> used_countries s' = used_countries s
     \<Longrightarrow> exclusion_inv U pre s'"
  by (simp add: exclusion_inv_def)

lemma exclusion_inv_set_status:
  "exclusion_inv U pre s \<Longrightarrow> exclusion_inv U pre (set_status aid n s)"
  unfolding exclusion_inv_def set_status_def emit_def
  by (auto simp: respects_exclusion_append)

lemma exclusion_inv_used_countries_add:
  "exclusion_inv U pre s \<Longrightarrow> exclusion_inv U pre (used_countries_add c s)"
  unfolding exclusion_inv_def used_countries_add_def emit_def
  by (auto simp: respects_exclusion_append)

lemma exclusion_inv_buy:
  "exclusion_inv U pre s \<Longrightarrow> c \<notin> used_countries s
     \<Longrightarrow> exclusion_inv U pre (emit (BuyNumber c r) s)"
  unfolding exclusion_inv_def emit_def
  by (auto simp: respects_exclusion_append)

lemma stable_exclusion_inv: "stable (exclusion_inv U pre)"
  unfolding stable_def
  by (auto intro: exclusion_inv_set_status exclusion_inv_used_countries_add
      elim: exclusion_inv_same simp: next_tick_def)

lemma acquire_stable_exclusion_inv: "acquire_stable (exclusion_inv U pre)"
  unfolding acquire_stable_def
  by (auto intro: exclusion_inv_buy elim: exclusion_inv_same)

lemma store_stable_exclusion_inv: "store_stable (exclusion_inv U pre)"
  unfolding store_stable_def
  by (auto elim: exclusion_inv_same)

text \<open>
  A run in the world whose form rejects every number: three attempts, each buying in the
  cheapest country not yet excluded (country 12 before country 40 at the same price, as
  the dictionary lists them), cancelling and excluding it.
\<close>

lemma rejecting_run:
  "handle_verification rejecting_world new_verification =
     (False,
      \<lparr>current_activation = None, used_countries = {''151'', ''40'', ''12''},
       state = INITIAL,
       available_numbers = [(''151'', 5), (''12'', 5), (''40'', 5), (''16'', 5), (''117'', 5)],
       self_phone_number = Some ''5550100'', phone_manager = None,
       trace =
         [BuyNumber ''12'' (Some (''id12'', ''5550100'')), SetStatus ''id12'' 6, Exclude ''12'',
          BuyNumber ''40'' (Some (''id40'', ''5550100'')), SetStatus ''id40'' 6, Exclude ''40'',
          BuyNumber ''151'' (Some (''id151'', ''5550100'')), SetStatus ''id151'' 6,
          Exclude ''151''],
       tick = 31\<rparr>)"
  by (simp add: run_simps world_simps)

text \<open>
  C5: within one run of \<open>handle_verification\<close> the exclusion set only grows, by the
  countries that the run excludes and no others, and the log of the run respects it: no
  purchase targets a country that was excluded on entry or has been excluded earlier in the
  run, whatever the price queries list. The selected countries are the keys of a
  dictionary, hence distinct.
\<close>

theorem used_countries_only_grow:
  assumes "distinct (selected_countries w)" and "handle_verification w s = (r, s')"
  shows "used_countries s \<subseteq> used_countries s'
       \<and> (\<exists>es. trace s' = trace s @ es
               \<and> respects_exclusion (used_countries s) es
               \<and> used_countries s' = used_countries s \<union> excluded es)"
proof -
  let ?P = "exclusion_inv (used_countries s) (trace s)"
  have rs: "run_stable w ?P"
    using assms(1) stable_exclusion_inv acquire_stable_exclusion_inv
    by (simp add: run_stable_def)
  have init: "?P s" by (simp add: exclusion_inv_def)
  from handle_verification_stable[OF rs init assms(2) store_stable_exclusion_inv]
  have "?P s'" .
  then show ?thesis unfolding exclusion_inv_def by auto
qed

theorem used_countries_only_grow_witness:
  "distinct (selected_countries rejecting_world)
   \<and> fst (handle_verification rejecting_world new_verification) = False
   \<and> used_countries new_verification
       \<subseteq> used_countries (snd (handle_verification rejecting_world new_verification))
   \<and> (\<exists>es. trace (snd (handle_verification rejecting_world new_verification))
               = trace new_verification @ es
           \<and> respects_exclusion (used_countries new_verification) es
           \<and> used_countries (snd (handle_verification rejecting_world new_verification))
               = used_countries new_verification \<union> excluded es)"
proof -
  have d: "distinct (selected_countries rejecting_world)"
    by (simp add: world_simps)
  have f: "fst (handle_verification rejecting_world new_verification) = False"
    by (simp add: rejecting_run)
  have run: "handle_verification rejecting_world new_verification =
      (False, snd (handle_verification rejecting_world new_verification))"
    by (simp add: rejecting_run)
  from used_countries_only_grow [OF d run] d f show ?thesis by blast
qed

section \<open>Runs that end before or without a verification\<close>

lemma buy_targets_append [simp]: "buy_targets (es @ es') = buy_targets es @ buy_targets es'"
  by (induction es rule: buy_targets.induct) auto

lemma ensure_final_cleanup_trace:
  "\<exists>es. trace (ensure_final_cleanup s) = trace s @ es \<and> buy_targets es = []"
  by (cases "current_activation s")
     (simp_all add: ensure_final_cleanup_def cancel_number_def used_countries_add_def
       set_status_def emit_def)

lemma ensure_final_cleanup_state [simp]: "state (ensure_final_cleanup s) = state s"
  by (cases "current_activation s")
     (simp_all add: ensure_final_cleanup_def cancel_number_def used_countries_add_def
       set_status_def emit_def)

lemma ensure_final_cleanup_idle:
  "current_activation s = None \<Longrightarrow> ensure_final_cleanup s = s"
  by (simp add: ensure_final_cleanup_def)

lemma ensure_final_cleanup_completed:
  "state s = COMPLETED \<Longrightarrow> ensure_final_cleanup s = s"
  by (cases "current_activation s") (simp_all add: ensure_final_cleanup_def cancel_number_def)

text \<open>
  C4: when the phone screen is present and the balance query of the run brings \<open>None\<close>
  or a value that is not positive, \<open>handle_verification\<close> returns \<open>False\<close> and what it
  logs contains no purchase. The balance is asked right after the probe of the phone
  screen, hence at the next tick.
\<close>

theorem no_purchase_without_balance:
  assumes "phone_screen w (tick s) = Returned True"
    and "get_balance w (Suc (tick s)) = None
         \<or> (\<exists>balance. get_balance w (Suc (tick s)) = Some balance \<and> balance \<le> 0)"
  shows "fst (handle_verification w s) = False
       \<and> (\<exists>es. trace (snd (handle_verification w s)) = trace s @ es \<and> buy_targets es = [])"
proof -
  have v: "validate_initial_conditions w (next_tick s) = (False, next_tick (next_tick s))"
    using assms(2) by (auto simp: validate_initial_conditions_def next_tick_def)
  have hv: "handle_verification w s = (False, ensure_final_cleanup (next_tick (next_tick s)))"
    using assms(1) v by (simp add: handle_verification_def check_phone_screen_def)
  from ensure_final_cleanup_trace[of "next_tick (next_tick s)"]
  obtain es where "trace (ensure_final_cleanup (next_tick (next_tick s))) = trace s @ es"
    and "buy_targets es = []"
    by (auto simp: next_tick_def)
  with hv show ?thesis by simp
qed

theorem no_purchase_without_balance_witness:
  "phone_screen no_balance_world (tick new_verification) = Returned True
   \<and> get_balance no_balance_world (Suc (tick new_verification)) = Some 0
   \<and> fst (handle_verification no_balance_world new_verification) = False
   \<and> (\<exists>es. trace (snd (handle_verification no_balance_world new_verification))
               = trace new_verification @ es \<and> buy_targets es = [])"
proof -
  have h1: "phone_screen no_balance_world (tick new_verification) = Returned True"
    by (simp add: world_simps)
  have b: "get_balance no_balance_world (Suc (tick new_verification)) = Some 0"
    by (simp add: world_simps)
  then have h2: "get_balance no_balance_world (Suc (tick new_verification)) = None
         \<or> (\<exists>balance. get_balance no_balance_world (Suc (tick new_verification)) = Some balance
                \<and> balance \<le> 0)"
    by simp
  from no_purchase_without_balance [OF h1 h2] h1 b show ?thesis by blast
qed

text \<open>
  C6, as the code has it: when the phone step is not on the form (one bounded wait that
  times out), \<open>handle_verification\<close> returns \<open>True\<close> without a purchase and leaves
  \<open>state\<close> as it was: a new orchestrator stays \<open>INITIAL\<close>. With no activation held,
  nothing at all is logged.
\<close>

theorem no_phone_screen_succeeds:
  assumes "phone_screen w (tick s) = Returned False"
  shows "fst (handle_verification w s) = True
       \<and> state (snd (handle_verification w s)) = state s
       \<and> (\<exists>es. trace (snd (handle_verification w s)) = trace s @ es \<and> buy_targets es = [])
       \<and> (current_activation s = None \<longrightarrow> trace (snd (handle_verification w s)) = trace s)"
proof -
  have hv: "handle_verification w s = (True, ensure_final_cleanup (next_tick s))"
    using assms by (simp add: handle_verification_def check_phone_screen_def)
  from ensure_final_cleanup_trace[of "next_tick s"]
  obtain es where "trace (ensure_final_cleanup (next_tick s)) = trace s @ es"
    and "buy_targets es = []"
    by (auto simp: next_tick_def)
  moreover have "state (ensure_final_cleanup (next_tick s)) = state s"
    by (simp add: next_tick_def)
  moreover have "current_activation s = None
      \<longrightarrow> trace (ensure_final_cleanup (next_tick s)) = trace s"
    by (simp add: ensure_final_cleanup_idle next_tick_def)
  ultimately show ?thesis using hv by simp
qed

theorem no_phone_screen_succeeds_witness:
  "phone_screen no_screen_world (tick new_verification) = Returned False
   \<and> fst (handle_verification no_screen_world new_verification) = True
   \<and> state (snd (handle_verification no_screen_world new_verification)) = INITIAL
   \<and> trace (snd (handle_verification no_screen_world new_verification)) = []"
proof -
  have h: "phone_screen no_screen_world (tick new_verification) = Returned False"
    by (simp add: world_simps)
  from no_phone_screen_succeeds [OF h] h show ?thesis
    by (simp add: new_verification_def)
qed

text \<open>
  The state does not become \<open>COMPLETED\<close> on that path: a new orchestrator in a world
  without the phone step returns \<open>True\<close> in a state other than \<open>COMPLETED\<close>.
\<close>

theorem no_phone_screen_counterexample:
  "phone_screen no_screen_world (tick new_verification) = Returned False
   \<and> state new_verification = INITIAL
   \<and> fst (handle_verification no_screen_world new_verification) = True
   \<and> state (snd (handle_verification no_screen_world new_verification)) \<noteq> COMPLETED"
  by (simp add: run_simps world_simps)

text \<open>
  A run in the world whose phone input never gets clickable: \<open>_submit_phone_number\<close>
  returns \<open>False\<close> without cancelling, the next attempt overwrites
  \<open>current_activation\<close> with a new purchase, and the final cleanup cancels the last
  activation only.
\<close>

lemma stuck_form_run:
  "handle_verification stuck_form_world new_verification =
     (False,
      \<lparr>current_activation = None, used_countries = {''12''}, state = INITIAL,
       available_numbers = [(''151'', 5), (''12'', 5), (''40'', 5), (''16'', 5), (''117'', 5)],
       self_phone_number = Some ''5550103'', phone_manager = None,
       trace =
         [BuyNumber ''12'' (Some (''A1'', ''5550101'')),
          BuyNumber ''12'' (Some (''A2'', ''5550102'')),
          BuyNumber ''12'' (Some (''A3'', ''5550103'')),
          SetStatus ''A3'' 6, Exclude ''12''],
       tick = 21\<rparr>)"
  by (simp add: run_simps world_simps)

text \<open>
  C2 fails on the code at this input: the run returns \<open>False\<close>, activation \<open>A1\<close> was
  purchased in it, and the log holds neither status 8 nor a cancel (status 6) for \<open>A1\<close>;
  no activation is held at the end, so nothing is left that could still cancel it.
\<close>

theorem stuck_form_leaves_numbers_uncancelled:
  "fst (handle_verification stuck_form_world new_verification) = False
   \<and> BuyNumber ''12'' (Some (''A1'', ''5550101''))
       \<in> set (trace (snd (handle_verification stuck_form_world new_verification)))
   \<and> SetStatus ''A1'' 6 \<notin> set (trace (snd (handle_verification stuck_form_world new_verification)))
   \<and> SetStatus ''A1'' 8 \<notin> set (trace (snd (handle_verification stuck_form_world new_verification)))
   \<and> current_activation (snd (handle_verification stuck_form_world new_verification)) = None"
  by (simp add: stuck_form_run)

section \<open>Acquiring a number\<close>

lemma excluded_Cons_Buy [simp]: "excluded (BuyNumber c r # es) = excluded es"
  by simp

lemma buy_loop_log:
  "buy_loop w rows s = (a, s') \<Longrightarrow>
   \<exists>es k. trace s' = trace s @ es \<and> k \<le> length rows
        \<and> buy_targets es = map fst (take k rows)
        \<and> excluded es = failed_targets es
        \<and> used_countries s' = used_countries s \<union> failed_targets es
        \<and> (case a of
             None \<Rightarrow> k = length rows \<and> failed_targets es = set (map fst rows)
           | Some act \<Rightarrow> 0 < k \<and> country_code act = fst (rows ! (k - 1))
                \<and> failed_targets es = set (map fst (take (k - 1) rows))
                \<and> phone_number act \<noteq> []
                \<and> es \<noteq> []
                \<and> last es = BuyNumber (country_code act)
                              (Some (activation_id act, phone_number act))
                \<and> self_phone_number s' = Some (phone_number act))"
proof (induction rows arbitrary: s)
  case Nil
  then show ?case by simp
next
  case (Cons row rows)
  obtain c price where row: "row = (c, price)" by (cases row)
  let ?b = "buy_number w (tick s) c"
  let ?s1 = "emit (BuyNumber c ?b) (next_tick s)"
  let ?s2 = "used_countries_add c ?s1"
  have tr2: "trace ?s2 = trace s @ [BuyNumber c ?b, Exclude c]"
    and uc2: "used_countries ?s2 = insert c (used_countries s)"
    by (simp_all add: used_countries_add_def emit_def next_tick_def)
  have failed: ?case
    if run: "buy_loop w rows ?s2 = (a, s')"
      and nb: "?b = None \<or> (\<exists>aid. ?b = Some (aid, []))"
  proof -
    from Cons.IH[OF run] obtain es k where
      t: "trace s' = trace ?s2 @ es" and k: "k \<le> length rows"
      and bt: "buy_targets es = map fst (take k rows)"
      and ex: "excluded es = failed_targets es"
      and uc: "used_countries s' = used_countries ?s2 \<union> failed_targets es"
      and cs: "case a of
             None \<Rightarrow> k = length rows \<and> failed_targets es = set (map fst rows)
           | Some act \<Rightarrow> 0 < k \<and> country_code act = fst (rows ! (k - 1))
                \<and> failed_targets es = set (map fst (take (k - 1) rows))
                \<and> phone_number act \<noteq> []
                \<and> es \<noteq> []
                \<and> last es = BuyNumber (country_code act)
                              (Some (activation_id act, phone_number act))
                \<and> self_phone_number s' = Some (phone_number act)"
      by (elim exE conjE) (rule that)
    let ?es = "[BuyNumber c ?b, Exclude c] @ es"
    have fte: "failed_targets ?es = insert c (failed_targets es)"
      using nb by (elim disjE exE) simp_all
    have 1: "trace s' = trace s @ ?es" using t tr2 by simp
    have 2: "Suc k \<le> length (row # rows)" using k by simp
    have 3: "buy_targets ?es = map fst (take (Suc k) (row # rows))"
      using bt row by simp
    have 4: "excluded ?es = failed_targets ?es" using ex fte by simp
    have 5: "used_countries s' = used_countries s \<union> failed_targets ?es"
      using uc uc2 fte by auto
    have 6: "case a of
             None \<Rightarrow> Suc k = length (row # rows) \<and> failed_targets ?es = set (map fst (row # rows))
           | Some act \<Rightarrow> 0 < Suc k \<and> country_code act = fst ((row # rows) ! (Suc k - 1))
                \<and> failed_targets ?es = set (map fst (take (Suc k - 1) (row # rows)))
                \<and> phone_number act \<noteq> []
                \<and> ?es \<noteq> []
                \<and> last ?es = BuyNumber (country_code act)
                               (Some (activation_id act, phone_number act))
                \<and> self_phone_number s' = Some (phone_number act)"
    proof (cases a)
      case None
      with cs fte row show ?thesis by simp
    next
      case (Some act)
      with cs have k0: "0 < k" and cc: "country_code act = fst (rows ! (k - 1))"
        and f: "failed_targets es = set (map fst (take (k - 1) rows))"
        and p: "phone_number act \<noteq> []"
        and ne: "es \<noteq> []"
        and l: "last es = BuyNumber (country_code act)
                              (Some (activation_id act, phone_number act))"
        and sp: "self_phone_number s' = Some (phone_number act)"
        by simp_all
      from k0 obtain k' where k': "k = Suc k'" by (cases k) simp_all
      from ne l have l': "last ?es = BuyNumber (country_code act)
                              (Some (activation_id act, phone_number act))"
        by simp
      have f': "failed_targets ?es = set (map fst (take (Suc k - 1) (row # rows)))"
        unfolding fte f using k' row by simp
      from cc k' have cc': "country_code act = fst ((row # rows) ! (Suc k - 1))" by simp
      from Some cc' f' p l' sp show ?thesis by (simp only: option.case) simp
    qed
    from 1 2 3 4 5 6 show ?thesis by (intro exI[of _ ?es] exI[of _ "Suc k"] conjI)
  qed
  show ?case
  proof (cases ?b)
    case None
    with Cons.prems row have "buy_loop w rows ?s2 = (a, s')" by (simp add: Let_def)
    moreover from None have "?b = None \<or> (\<exists>aid. ?b = Some (aid, []))" by simp
    ultimately show ?thesis by (rule failed)
  next
    case (Some bought)
    obtain aid phone where b: "bought = (aid, phone)" by (cases bought)
    show ?thesis
    proof (cases "phone = []")
      case True
      with Cons.prems row Some b have "buy_loop w rows ?s2 = (a, s')" by (simp add: Let_def)
      moreover from Some b True have "?b = None \<or> (\<exists>aid. ?b = Some (aid, []))" by simp
      ultimately show ?thesis by (rule failed)
    next
      case False
      let ?act = "\<lparr>activation_id = aid, phone_number = phone, country_code = c,
                       start_time = clock w (tick ?s1), a_state = NUMBER_RECEIVED,
                       attempts = 0, max_lifetime = 1200\<rparr>"
      from Cons.prems row Some b False
      have a: "a = Some ?act" and s': "s' = (next_tick ?s1)\<lparr>self_phone_number := Some phone\<rparr>"
        by (simp_all add: Let_def)
      let ?es = "[BuyNumber c (Some (aid, phone))]"
      have 1: "trace s' = trace s @ ?es" using s' Some b by (simp add: emit_def next_tick_def)
      have 5: "used_countries s' = used_countries s \<union> failed_targets ?es"
        using s' False by (simp add: emit_def next_tick_def)
      have "trace s' = trace s @ ?es \<and> Suc 0 \<le> length (row # rows)
        \<and> buy_targets ?es = map fst (take (Suc 0) (row # rows))
        \<and> excluded ?es = failed_targets ?es
        \<and> used_countries s' = used_countries s \<union> failed_targets ?es
        \<and> (case a of
             None \<Rightarrow> Suc 0 = length (row # rows) \<and> failed_targets ?es = set (map fst (row # rows))
           | Some act \<Rightarrow> 0 < Suc 0 \<and> country_code act = fst ((row # rows) ! (Suc 0 - 1))
                \<and> failed_targets ?es = set (map fst (take (Suc 0 - 1) (row # rows)))
                \<and> phone_number act \<noteq> []
                \<and> ?es \<noteq> []
                \<and> last ?es = BuyNumber (country_code act)
                               (Some (activation_id act, phone_number act))
                \<and> self_phone_number s' = Some (phone_number act))"
        using 1 5 a s' row False by simp
      then show ?thesis by (intro exI[of _ ?es] exI[of _ "Suc 0"])
    qed
  qed
qed

lemma price_rows_Nil [simp]: "price_rows [] cs = []"
  by (induction cs) simp_all

lemma set_price_rows:
  "set (map fst (price_rows prices cs)) = {c \<in> set cs. \<exists>cost. map_of prices c = Some cost}"
  by (induction cs) (auto split: option.splits)

lemma filtered_prices_sorted: "sorted (map snd (filtered_prices w s))"
  by (simp add: filtered_prices_def split: option.splits)

lemma filtered_prices_countries:
  "set (map fst (filtered_prices w s)) =
     {c \<in> set (selected_countries w) - used_countries s.
        \<exists>prices cost. get_prices w (tick s) = Some prices \<and> map_of prices c = Some cost}"
proof (cases "get_prices w (tick s)")
  case None
  then show ?thesis by (simp add: filtered_prices_def)
next
  case (Some prices)
  have "set (map fst (filtered_prices w s)) =
          set (map fst (price_rows prices
             (filter (\<lambda>code. code \<notin> used_countries s) (selected_countries w))))"
    using Some by (simp add: filtered_prices_def)
  also have "\<dots> = {c \<in> set (filter (\<lambda>code. code \<notin> used_countries s) (selected_countries w)).
                     \<exists>cost. map_of prices c = Some cost}"
    by (rule set_price_rows)
  finally show ?thesis using Some by auto
qed

lemma get_new_number_buy_loop:
  "\<exists>s0. (s0 = s \<or> s0 = next_tick s)
      \<and> get_new_number w s = buy_loop w (filtered_prices w s) s0"
proof (cases "filter (\<lambda>code. code \<notin> used_countries s) (selected_countries w) = []")
  case True
  then have "filtered_prices w s = []"
    by (simp add: filtered_prices_def split: option.splits)
  moreover from True have "get_new_number w s = (None, s)"
    by (simp add: get_new_number_def)
  ultimately show ?thesis by simp
next
  case av: False
  show ?thesis
  proof (cases "get_prices w (tick s)")
    case None
    then have "filtered_prices w s = []" by (simp add: filtered_prices_def)
    moreover from None av have "get_new_number w s = (None, next_tick s)"
      by (simp add: get_new_number_def)
    ultimately show ?thesis by simp
  next
    case (Some prices)
    let ?rows = "price_rows prices
                   (filter (\<lambda>code. code \<notin> used_countries s) (selected_countries w))"
    have fp: "filtered_prices w s = sort_key snd ?rows"
      using Some by (simp add: filtered_prices_def)
    show ?thesis
    proof (cases "prices = [] \<or> ?rows = []")
      case True
      then have r: "?rows = []" by auto
      with fp have "filtered_prices w s = []" by simp
      moreover from Some av True r have "get_new_number w s = (None, next_tick s)"
        by (auto simp: get_new_number_def Let_def)
      ultimately show ?thesis by simp
    next
      case False
      with Some av have "get_new_number w s = buy_loop w (sort_key snd ?rows) (next_tick s)"
        by (simp add: get_new_number_def Let_def)
      with fp show ?thesis by (intro exI[of _ "next_tick s"]) simp
    qed
  qed
qed

lemma buy_loop_store:
  "buy_loop w rows (s\<lparr>phone_manager := pm\<rparr>) =
     (fst (buy_loop w rows s), (snd (buy_loop w rows s))\<lparr>phone_manager := pm\<rparr>)"
proof (induction rows arbitrary: s)
  case Nil
  show ?case by simp
next
  case (Cons row rows)
  obtain c price where row: "row = (c, price)" by (cases row)
  let ?b = "buy_number w (tick s) c"
  let ?s2 = "used_countries_add c (emit (BuyNumber c ?b) (next_tick s))"
  have e: "used_countries_add c (emit (BuyNumber c ?b) (next_tick (s\<lparr>phone_manager := pm\<rparr>)))
             = ?s2\<lparr>phone_manager := pm\<rparr>"
    by (simp add: used_countries_add_def emit_def next_tick_def)
  show ?case
  proof (cases ?b)
    case None
    with row Cons.IH[of ?s2] e show ?thesis by (simp add: Let_def)
  next
    case (Some bought)
    obtain aid phone where b: "bought = (aid, phone)" by (cases bought)
    show ?thesis
    proof (cases "phone = []")
      case True
      with row Some b Cons.IH[of ?s2] e show ?thesis by (simp add: Let_def)
    next
      case False
      with row Some b show ?thesis by (simp add: Let_def emit_def next_tick_def)
    qed
  qed
qed

lemma buy_loop_phone_manager:
  "phone_manager (snd (buy_loop w rows s)) = phone_manager s"
proof (induction rows arbitrary: s)
  case Nil
  show ?case by simp
next
  case (Cons row rows)
  obtain c price where row: "row = (c, price)" by (cases row)
  let ?b = "buy_number w (tick s) c"
  let ?s2 = "used_countries_add c (emit (BuyNumber c ?b) (next_tick s))"
  have e: "phone_manager ?s2 = phone_manager s"
    by (simp add: used_countries_add_def emit_def next_tick_def)
  show ?case
  proof (cases ?b)
    case None
    with row Cons.IH[of ?s2] e show ?thesis by (simp add: Let_def)
  next
    case (Some bought)
    obtain aid phone where b: "bought = (aid, phone)" by (cases bought)
    show ?thesis
    proof (cases "phone = []")
      case True
      with row Some b Cons.IH[of ?s2] e show ?thesis by (simp add: Let_def)
    next
      case False
      with row Some b show ?thesis by (simp add: Let_def emit_def next_tick_def)
    qed
  qed
qed

lemma filtered_prices_store [simp]:
  "filtered_prices w (s\<lparr>phone_manager := pm\<rparr>) = filtered_prices w s"
  by (simp add: filtered_prices_def split: option.splits)

lemma get_new_number_store:
  "get_new_number w (s\<lparr>phone_manager := pm\<rparr>) =
     (fst (get_new_number w s), (snd (get_new_number w s))\<lparr>phone_manager := pm\<rparr>)"
proof (cases "filter (\<lambda>code. code \<notin> used_countries s) (selected_countries w) = []")
  case True
  then show ?thesis by (simp add: get_new_number_def)
next
  case av: False
  show ?thesis
  proof (cases "get_prices w (tick s)")
    case None
    with av show ?thesis by (simp add: get_new_number_def next_tick_def)
  next
    case (Some prices)
    let ?rows = "price_rows prices
                   (filter (\<lambda>code. code \<notin> used_countries s) (selected_countries w))"
    show ?thesis
    proof (cases "prices = [] \<or> ?rows = []")
      case True
      with Some av show ?thesis by (auto simp: get_new_number_def Let_def next_tick_def)
    next
      case False
      have n: "next_tick (s\<lparr>phone_manager := pm\<rparr>) = (next_tick s)\<lparr>phone_manager := pm\<rparr>"
        by (simp add: next_tick_def)
      from False Some av
      have 1: "get_new_number w s = buy_loop w (sort_key snd ?rows) (next_tick s)"
        by (simp add: get_new_number_def Let_def)
      from False Some av
      have "get_new_number w (s\<lparr>phone_manager := pm\<rparr>)
              = buy_loop w (sort_key snd ?rows) (next_tick (s\<lparr>phone_manager := pm\<rparr>))"
        by (simp add: get_new_number_def Let_def)
      also have "\<dots> = buy_loop w (sort_key snd ?rows) ((next_tick s)\<lparr>phone_manager := pm\<rparr>)"
        by (simp only: n)
      also have "\<dots> = (fst (buy_loop w (sort_key snd ?rows) (next_tick s)),
                        (snd (buy_loop w (sort_key snd ?rows) (next_tick s)))\<lparr>phone_manager := pm\<rparr>)"
        by (rule buy_loop_store)
      finally show ?thesis by (simp only: 1)
    qed
  qed
qed

lemma get_new_number_log:
  assumes "get_new_number w s = (a, s')"
  shows "\<exists>es k. trace s' = trace s @ es \<and> k \<le> length (filtered_prices w s)
        \<and> buy_targets es = map fst (take k (filtered_prices w s))
        \<and> excluded es = failed_targets es
        \<and> used_countries s' = used_countries s \<union> failed_targets es
        \<and> (case a of
             None \<Rightarrow> k = length (filtered_prices w s)
                    \<and> failed_targets es = set (map fst (filtered_prices w s))
           | Some act \<Rightarrow> 0 < k \<and> country_code act = fst (filtered_prices w s ! (k - 1))
                \<and> failed_targets es = set (map fst (take (k - 1) (filtered_prices w s)))
                \<and> phone_number act \<noteq> []
                \<and> es \<noteq> []
                \<and> last es = BuyNumber (country_code act)
                              (Some (activation_id act, phone_number act))
                \<and> self_phone_number s' = Some (phone_number act))"
proof -
  from get_new_number_buy_loop[of s w] obtain s0 where
    s0: "s0 = s \<or> s0 = next_tick s"
    and g: "get_new_number w s = buy_loop w (filtered_prices w s) s0"
    by (elim exE conjE) (rule that)
  from g assms have bl: "buy_loop w (filtered_prices w s) s0 = (a, s')" by simp
  from s0 have "trace s0 = trace s" "used_countries s0 = used_countries s"
    by (auto simp: next_tick_def)
  with buy_loop_log[OF bl] show ?thesis by simp
qed

lemma get_new_number_phone_manager:
  assumes "get_new_number w s = (a, s')"
  shows "phone_manager s' = phone_manager s"
proof -
  from get_new_number_buy_loop[of s w] obtain s0 where
    s0: "s0 = s \<or> s0 = next_tick s"
    and g: "get_new_number w s = buy_loop w (filtered_prices w s) s0"
    by (elim exE conjE) (rule that)
  from g assms have "buy_loop w (filtered_prices w s) s0 = (a, s')" by simp
  then have "snd (buy_loop w (filtered_prices w s) s0) = s'" by simp
  moreover from s0 have "phone_manager s0 = phone_manager s" by (auto simp: next_tick_def)
  ultimately show ?thesis
    using buy_loop_phone_manager[of w "filtered_prices w s" s0] by simp
qed

text \<open>
  An acquisition in the world without stock in country \<open>12\<close>, by an orchestrator that has
  excluded country \<open>40\<close>: country \<open>40\<close> is not asked although it is among the cheapest,
  country \<open>12\<close> is asked first and excluded, country \<open>151\<close> brings the number.
\<close>

lemma scarce_acquisition:
  "get_new_number scarce_world excluding_verification =
     (Some \<lparr>activation_id = ''id151'', phone_number = ''5550100'', country_code = ''151'',
            start_time = 203, a_state = NUMBER_RECEIVED, attempts = 0, max_lifetime = 1200\<rparr>,
      \<lparr>current_activation = None, used_countries = {''40'', ''12''}, state = INITIAL,
       available_numbers = [], self_phone_number = Some ''5550100'',
       phone_manager = Some example_manager,
       trace = [BuyNumber ''12'' None, Exclude ''12'',
                BuyNumber ''151'' (Some (''id151'', ''5550100''))],
       tick = 4\<rparr>)"
  by (simp add: run_simps world_simps insert_commute)

lemma scarce_filtered_prices:
  "filtered_prices scarce_world excluding_verification = [(''12'', 10), (''151'', 20)]"
  by (simp add: filtered_prices_def run_simps world_simps)

text \<open>
  C3, as the code has it: \<open>_try_verification_cycle\<close> acquires its number by one call of
  \<open>_get_new_number\<close>, which never consults the reuse store: with any other store, or
  none, it returns the same activation and makes the same calls, and it leaves the store as
  it is. It purchases fresh: the rows tried are the selected countries outside the
  exclusion set that the price query lists, by ascending price; the purchases of the call
  target a prefix of these rows in that order; each country whose purchase brings no number
  is added to the exclusion set, and nothing else is; the call ends with the first purchase
  that brings a number, or with \<open>None\<close> when every row has been tried and excluded.
\<close>

theorem get_new_number_buys_by_price:
  assumes "get_new_number w s = (a, s')"
  shows "get_new_number w (s\<lparr>phone_manager := pm\<rparr>) = (a, s'\<lparr>phone_manager := pm\<rparr>)
       \<and> phone_manager s' = phone_manager s
       \<and> sorted (map snd (filtered_prices w s))
       \<and> set (map fst (filtered_prices w s)) =
           {c \<in> set (selected_countries w) - used_countries s.
              \<exists>prices cost. get_prices w (tick s) = Some prices \<and> map_of prices c = Some cost}
       \<and> (\<exists>es k. trace s' = trace s @ es \<and> k \<le> length (filtered_prices w s)
            \<and> buy_targets es = map fst (take k (filtered_prices w s))
            \<and> excluded es = failed_targets es
            \<and> used_countries s' = used_countries s \<union> failed_targets es
            \<and> (case a of
                 None \<Rightarrow> k = length (filtered_prices w s)
                        \<and> failed_targets es = set (map fst (filtered_prices w s))
               | Some act \<Rightarrow> 0 < k \<and> country_code act = fst (filtered_prices w s ! (k - 1))
                    \<and> failed_targets es = set (map fst (take (k - 1) (filtered_prices w s)))
                    \<and> phone_number act \<noteq> []
                    \<and> es \<noteq> []
                    \<and> last es = BuyNumber (country_code act)
                                  (Some (activation_id act, phone_number act))
                    \<and> self_phone_number s' = Some (phone_number act)))"
proof (intro conjI)
  show "get_new_number w (s\<lparr>phone_manager := pm\<rparr>) = (a, s'\<lparr>phone_manager := pm\<rparr>)"
    using get_new_number_store[where w = w and s = s and pm = pm] assms by simp
  show "phone_manager s' = phone_manager s"
    using assms by (rule get_new_number_phone_manager)
  show "sorted (map snd (filtered_prices w s))" by (rule filtered_prices_sorted)
  show "set (map fst (filtered_prices w s)) =
           {c \<in> set (selected_countries w) - used_countries s.
              \<exists>prices cost. get_prices w (tick s) = Some prices \<and> map_of prices c = Some cost}"
    by (rule filtered_prices_countries)
  show "\<exists>es k. trace s' = trace s @ es \<and> k \<le> length (filtered_prices w s)
            \<and> buy_targets es = map fst (take k (filtered_prices w s))
            \<and> excluded es = failed_targets es
            \<and> used_countries s' = used_countries s \<union> failed_targets es
            \<and> (case a of
                 None \<Rightarrow> k = length (filtered_prices w s)
                        \<and> failed_targets es = set (map fst (filtered_prices w s))
               | Some act \<Rightarrow> 0 < k \<and> country_code act = fst (filtered_prices w s ! (k - 1))
                    \<and> failed_targets es = set (map fst (take (k - 1) (filtered_prices w s)))
                    \<and> phone_number act \<noteq> []
                    \<and> es \<noteq> []
                    \<and> last es = BuyNumber (country_code act)
                                  (Some (activation_id act, phone_number act))
                    \<and> self_phone_number s' = Some (phone_number act))"
    using assms by (rule get_new_number_log)
qed

theorem get_new_number_buys_by_price_witness:
  "get_new_number scarce_world excluding_verification =
     (Some \<lparr>activation_id = ''id151'', phone_number = ''5550100'', country_code = ''151'',
            start_time = 203, a_state = NUMBER_RECEIVED, attempts = 0, max_lifetime = 1200\<rparr>,
      \<lparr>current_activation = None, used_countries = {''40'', ''12''}, state = INITIAL,
       available_numbers = [], self_phone_number = Some ''5550100'',
       phone_manager = Some example_manager,
       trace = [BuyNumber ''12'' None, Exclude ''12'',
                BuyNumber ''151'' (Some (''id151'', ''5550100''))],
       tick = 4\<rparr>)
   \<and> filtered_prices scarce_world excluding_verification = [(''12'', 10), (''151'', 20)]
   \<and> get_new_number scarce_world (excluding_verification\<lparr>phone_manager := None\<rparr>) =
     (Some \<lparr>activation_id = ''id151'', phone_number = ''5550100'', country_code = ''151'',
            start_time = 203, a_state = NUMBER_RECEIVED, attempts = 0, max_lifetime = 1200\<rparr>,
      \<lparr>current_activation = None, used_countries = {''40'', ''12''}, state = INITIAL,
       available_numbers = [], self_phone_number = Some ''5550100'',
       phone_manager = None,
       trace = [BuyNumber ''12'' None, Exclude ''12'',
                BuyNumber ''151'' (Some (''id151'', ''5550100''))],
       tick = 4\<rparr>)
   \<and> sorted (map snd (filtered_prices scarce_world excluding_verification))"
proof -
  note t = get_new_number_buys_by_price [OF scarce_acquisition, where pm = None]
  from t have 1: "get_new_number scarce_world (excluding_verification\<lparr>phone_manager := None\<rparr>) =
     (Some \<lparr>activation_id = ''id151'', phone_number = ''5550100'', country_code = ''151'',
            start_time = 203, a_state = NUMBER_RECEIVED, attempts = 0, max_lifetime = 1200\<rparr>,
      \<lparr>current_activation = None, used_countries = {''40'', ''12''}, state = INITIAL,
       available_numbers = [], self_phone_number = Some ''5550100'',
       phone_manager = None,
       trace = [BuyNumber ''12'' None, Exclude ''12'',
                BuyNumber ''151'' (Some (''id151'', ''5550100''))],
       tick = 4\<rparr>)"
    by simp
  from t have 2: "sorted (map snd (filtered_prices scarce_world excluding_verification))"
    by (elim conjE)
  from scarce_acquisition scarce_filtered_prices 1 2 show ?thesis by (intro conjI)
qed

text \<open>
  The store is never offered. The example store holds, at the time of the run, an entry
  that \<open>get_reusable_number\<close> returns for the tag \<open>go\<close> as for the tag \<open>gmail\<close>; the
  acquisition of an orchestrator to which this store is attached purchases a number in
  country \<open>12\<close> all the same, and the attempt completes with the purchased number.
\<close>

theorem get_new_number_ignores_store_counterexample:
  "phone_manager verification_with_store = Some example_manager
   \<and> fst (get_reusable_number 200 201 ''go'' example_manager)
       = Some (checkout 200 ''go'' (example_numbers ! 1))
   \<and> fst (get_reusable_number 200 201 ''gmail'' example_manager)
       = Some (checkout 200 ''gmail'' (example_numbers ! 1))
   \<and> get_new_number example_world verification_with_store =
     (Some \<lparr>activation_id = ''id12'', phone_number = ''5550100'', country_code = ''12'',
            start_time = 202, a_state = NUMBER_RECEIVED, attempts = 0, max_lifetime = 1200\<rparr>,
      \<lparr>current_activation = None, used_countries = {}, state = INITIAL,
       available_numbers = [], self_phone_number = Some ''5550100'',
       phone_manager = Some example_manager,
       trace = [BuyNumber ''12'' (Some (''id12'', ''5550100''))],
       tick = 3\<rparr>)
   \<and> fst (try_verification_cycle example_world verification_with_store)
   \<and> trace (snd (try_verification_cycle example_world verification_with_store)) =
       [BuyNumber ''12'' (Some (''id12'', ''5550100'')), SetStatus ''id12'' 3,
        SetStatus ''id12'' 8]"
  by (simp add: run_simps world_simps get_reusable_number_def
      cleanup_expired_numbers_def
      save_numbers_def example_manager_def example_numbers_def valid_number_def
      reuse_window_def checkout_def)

section \<open>Runs that end in success\<close>

lemma stable_run_frame: "stable (run_frame pre pm)"
  by (auto simp: stable_def run_frame_def next_tick_def set_status_def emit_def
      used_countries_add_def)

lemma run_stable_run_frame: "run_stable w (run_frame pre pm)"
  by (auto simp: run_stable_def stable_run_frame acquire_stable_def buy_free_def run_frame_def
      emit_def)

lemma stable_sms_frame: "stable (sms_frame pre pm phone a)"
  by (auto simp: stable_def sms_frame_def next_tick_def set_status_def emit_def
      used_countries_add_def)

lemma run_frame_trans:
  "run_frame pre pm s0 \<Longrightarrow> run_frame (trace s0) pm s \<Longrightarrow> run_frame pre pm s"
  by (auto simp: run_frame_def)

lemma completed_with_trans:
  assumes "run_frame pre pm s0" and "completed_with w (trace s0) pm act s'"
  shows "completed_with w pre pm act s'"
proof -
  from assms(1) obtain es0 where t0: "trace s0 = pre @ es0" by (auto simp: run_frame_def)
  from assms(2) obtain es where t: "trace s' = trace s0 @ es @ [SetStatus (activation_id act) 8]"
    and b: "BuyNumber (country_code act) (Some (activation_id act, phone_number act)) \<in> set es"
    unfolding completed_with_def by (elim exE conjE) (rule that)
  have "trace s' = pre @ (es0 @ es) @ [SetStatus (activation_id act) 8]
        \<and> BuyNumber (country_code act) (Some (activation_id act, phone_number act))
             \<in> set (es0 @ es)"
    using t0 t b by simp
  then have "\<exists>es. trace s' = pre @ es @ [SetStatus (activation_id act) 8]
          \<and> BuyNumber (country_code act) (Some (activation_id act, phone_number act)) \<in> set es"
    by (rule exI)
  with assms(2) show ?thesis unfolding completed_with_def by (elim conjE) (intro conjI)
qed

lemma enter_code_True:
  "enter_code w aid start code s = (True, s') \<Longrightarrow>
     s' = store_number w
            ((set_status aid 8 (next_tick (next_tick (next_tick s))))\<lparr>state := COMPLETED\<rparr>)"
  by (simp add: enter_code_def split: if_splits)

lemma try_formats_True:
  "try_formats w fs s = (True, s') \<Longrightarrow> \<exists>n. s' = s\<lparr>tick := n\<rparr>"
proof (induction fs arbitrary: s)
  case Nil
  then show ?case by simp
next
  case (Cons f fs)
  show ?case
  proof (cases "format_accepted w (tick s) f")
    case True
    with Cons.prems have "s' = s\<lparr>tick := Suc (tick s)\<rparr>" by (simp add: next_tick_def)
    then show ?thesis by (rule exI)
  next
    case False
    with Cons.prems have "try_formats w fs (next_tick s) = (True, s')" by simp
    from Cons.IH[OF this] obtain n where "s' = (next_tick s)\<lparr>tick := n\<rparr>" by (rule exE)
    then have "s' = s\<lparr>tick := n\<rparr>" by (simp add: next_tick_def)
    then show ?thesis by (rule exI)
  qed
qed

lemma submit_phone_number_True:
  assumes "submit_phone_number w s = (True, s')"
  shows "\<exists>n. s' = s\<lparr>tick := n\<rparr>"
proof (cases "current_activation s")
  case None
  with assms show ?thesis by (simp add: submit_phone_number_def)
next
  case (Some a)
  show ?thesis
  proof (cases "phone_input_ready w (tick s)")
    case False
    with assms Some show ?thesis by (simp add: submit_phone_number_def)
  next
    case True
    with assms Some
    have "try_formats w [phone_number a, ''+'' @ country_code a @ phone_number a] (next_tick s)
            = (True, s')"
      by (simp add: submit_phone_number_def del: try_formats.simps)
    from try_formats_True[OF this] obtain n where "s' = (next_tick s)\<lparr>tick := n\<rparr>"
      by (rule exE)
    then have "s' = s\<lparr>tick := n\<rparr>" by (simp add: next_tick_def)
    then show ?thesis by (rule exI)
  qed
qed

lemma handle_sms_verification_True:
  assumes run: "handle_sms_verification w s = (True, s')"
    and held: "current_activation s = Some a"
  shows "\<exists>s3. sms_frame (trace s) (phone_manager s) (self_phone_number s) a s3
           \<and> s' = store_number w ((set_status (activation_id a) 8 s3)\<lparr>state := COMPLETED\<rparr>)"
proof -
  let ?P = "sms_frame (trace s) (phone_manager s) (self_phone_number s) a"
  note st = stable_sms_frame[of "trace s" "phone_manager s" "self_phone_number s" a]
  have 0: "?P s" using held by (simp add: sms_frame_def)
  let ?s1 = "s\<lparr>state := WAITING_SMS\<rparr>"
  have 1: "?P (next_tick ?s1)" using 0 by (intro stable_rules[OF st])
  obtain c2 s2 where g: "get_sms_code w (activation_id a) 6 (next_tick ?s1) = (c2, s2)"
    by (cases "get_sms_code w (activation_id a) 6 (next_tick ?s1)")
  from get_sms_code_stable[OF st 1 g] have 2: "?P s2" .
  obtain c3 s3 where l: "resend_loop w (activation_id a) (clock w (tick s)) 0 c2 s2 = (c3, s3)"
    by (cases "resend_loop w (activation_id a) (clock w (tick s)) 0 c2 s2")
  from resend_loop_stable[OF st 2 l] have 3: "?P s3" .
  from run held g l
  have "enter_code w (activation_id a) (clock w (tick s)) c3 s3 = (True, s')"
    by (simp add: handle_sms_verification_def Let_def)
  from enter_code_True[OF this]
  have s': "s' = store_number w
            ((set_status (activation_id a) 8 (next_tick (next_tick (next_tick s3))))
               \<lparr>state := COMPLETED\<rparr>)" .
  have "?P (next_tick (next_tick (next_tick s3)))" using 3 by (intro stable_rules[OF st])
  with s' show ?thesis by blast
qed

lemma get_new_number_Some:
  assumes "get_new_number w s = (Some act, s')"
  shows "\<exists>es. trace s' = trace s @ es
           \<and> BuyNumber (country_code act) (Some (activation_id act, phone_number act)) \<in> set es"
    and "phone_number act \<noteq> []"
    and "self_phone_number s' = Some (phone_number act)"
proof -
  from get_new_number_log[OF assms] obtain es k where
    t: "trace s' = trace s @ es"
    and c: "case Some act of
             None \<Rightarrow> k = length (filtered_prices w s)
                    \<and> failed_targets es = set (map fst (filtered_prices w s))
           | Some act \<Rightarrow> 0 < k \<and> country_code act = fst (filtered_prices w s ! (k - 1))
                \<and> failed_targets es = set (map fst (take (k - 1) (filtered_prices w s)))
                \<and> phone_number act \<noteq> []
                \<and> es \<noteq> []
                \<and> last es = BuyNumber (country_code act)
                              (Some (activation_id act, phone_number act))
                \<and> self_phone_number s' = Some (phone_number act)"
    by (elim exE conjE) (rule that)
  from c have p: "phone_number act \<noteq> []" and ne: "es \<noteq> []"
    and l: "last es = BuyNumber (country_code act) (Some (activation_id act, phone_number act))"
    and sp: "self_phone_number s' = Some (phone_number act)"
    by simp_all
  from ne have "last es \<in> set es" by (rule last_in_set)
  with l have "BuyNumber (country_code act) (Some (activation_id act, phone_number act)) \<in> set es"
    by simp
  with t show "\<exists>es. trace s' = trace s @ es
           \<and> BuyNumber (country_code act) (Some (activation_id act, phone_number act)) \<in> set es"
    by blast
  from p show "phone_number act \<noteq> []" .
  from sp show "self_phone_number s' = Some (phone_number act)" .
qed

lemma store_completed:
  fixes w :: world
  assumes "sms_frame pre pm (Some (phone_number act)) act s3"
  defines "s' \<equiv> store_number w ((set_status (activation_id act) 8 s3)\<lparr>state := COMPLETED\<rparr>)"
  shows "trace s' = trace s3 @ [SetStatus (activation_id act) 8]"
    and "state s' = COMPLETED"
    and "current_activation s' = None \<or> current_activation s' = Some act"
    and "phone_manager s' =
         (case (pm, current_activation s') of
            (Some m, Some held) \<Rightarrow>
              Some (snd (add_number (clock w (tick s' - 1)) (Some (phone_number act))
                           (Some (country_code act)) (Some (activation_id act)) ''gmail'' m))
          | _ \<Rightarrow> pm)"
proof -
  from assms(1) have pm: "phone_manager s3 = pm"
    and sp: "self_phone_number s3 = Some (phone_number act)"
    and ca: "current_activation s3 = None \<or> current_activation s3 = Some act"
    by (simp_all add: sms_frame_def)
  show "trace s' = trace s3 @ [SetStatus (activation_id act) 8]"
    unfolding s'_def
    by (simp add: store_number_def set_status_def emit_def next_tick_def split: option.splits)
  show "state s' = COMPLETED"
    unfolding s'_def
    by (simp add: store_number_def set_status_def emit_def next_tick_def split: option.splits)
  have c: "current_activation s' = current_activation s3"
    unfolding s'_def
    by (simp add: store_number_def set_status_def emit_def next_tick_def split: option.splits)
  with ca show "current_activation s' = None \<or> current_activation s' = Some act" by simp
  show "phone_manager s' =
         (case (pm, current_activation s') of
            (Some m, Some held) \<Rightarrow>
              Some (snd (add_number (clock w (tick s' - 1)) (Some (phone_number act))
                           (Some (country_code act)) (Some (activation_id act)) ''gmail'' m))
          | _ \<Rightarrow> pm)"
  proof (cases pm)
    case None
    with pm show ?thesis unfolding s'_def
      by (simp add: store_number_def set_status_def emit_def)
  next
    case (Some m)
    from ca show ?thesis
    proof
      assume n: "current_activation s3 = None"
      with pm Some show ?thesis unfolding s'_def
        by (simp add: store_number_def set_status_def emit_def)
    next
      assume h: "current_activation s3 = Some act"
      with pm Some sp show ?thesis unfolding s'_def
        by (simp add: store_number_def set_status_def emit_def next_tick_def)
    qed
  qed
qed

lemma acquire_and_verify_True:
  assumes run: "acquire_and_verify w s = (True, s')"
  shows "\<exists>act. completed_with w (trace s) (phone_manager s) act s'"
proof -
  obtain a s1 where g: "get_new_number w s = (a, s1)" by (cases "get_new_number w s")
  show ?thesis
  proof (cases a)
    case None
    with run g show ?thesis by (simp add: acquire_and_verify_def)
  next
    case (Some act)
    note g' = g[unfolded Some]
    let ?s1 = "s1\<lparr>current_activation := Some act\<rparr>"
    obtain ok s2 where sub: "submit_phone_number w ?s1 = (ok, s2)"
      by (cases "submit_phone_number w ?s1")
    from run g Some sub have ok: "ok" and sms: "handle_sms_verification w s2 = (True, s')"
      by (auto simp: acquire_and_verify_def split: bool.splits)
    from sub ok have "submit_phone_number w ?s1 = (True, s2)" by simp
    from submit_phone_number_True[OF this] obtain n where s2: "s2 = ?s1\<lparr>tick := n\<rparr>"
      by (rule exE)
    from get_new_number_Some(1)[OF g'] obtain es where
      t1: "trace s1 = trace s @ es"
      and b: "BuyNumber (country_code act) (Some (activation_id act, phone_number act)) \<in> set es"
      by (elim exE conjE) (rule that)
    note p = get_new_number_Some(2)[OF g']
    note sp = get_new_number_Some(3)[OF g']
    note pm1 = get_new_number_phone_manager[OF g']
    from s2 have held: "current_activation s2 = Some act"
      and t2: "trace s2 = trace s1" and pm2: "phone_manager s2 = phone_manager s1"
      and sp2: "self_phone_number s2 = self_phone_number s1"
      by simp_all
    from handle_sms_verification_True[OF sms held] obtain s3 where
      f: "sms_frame (trace s2) (phone_manager s2) (self_phone_number s2) act s3"
      and s': "s' = store_number w ((set_status (activation_id act) 8 s3)\<lparr>state := COMPLETED\<rparr>)"
      by (elim exE conjE) (rule that)
    from f have f': "sms_frame (trace s1) (phone_manager s) (Some (phone_number act)) act s3"
      by (simp only: t2 pm2 sp2 sp pm1)
    then obtain es3 where t3: "trace s3 = trace s1 @ es3" by (auto simp: sms_frame_def)
    note sc = store_completed[OF f', of w, folded s']
    have "trace s' = trace s @ (es @ es3) @ [SetStatus (activation_id act) 8]
          \<and> BuyNumber (country_code act) (Some (activation_id act, phone_number act))
               \<in> set (es @ es3)"
      using sc(1) t3 t1 b by simp
    then have "\<exists>es. trace s' = trace s @ es @ [SetStatus (activation_id act) 8]
          \<and> BuyNumber (country_code act) (Some (activation_id act, phone_number act)) \<in> set es"
      by (rule exI)
    with p sc(2) sc(3) sc(4) have "completed_with w (trace s) (phone_manager s) act s'"
      unfolding completed_with_def by (intro conjI)
    then show ?thesis by (rule exI)
  qed
qed

lemma try_verification_cycle_True:
  assumes "try_verification_cycle w s = (True, s')"
  shows "\<exists>s0. (s0 = s \<or> s0 = next_tick (next_tick s)) \<and> acquire_and_verify w s0 = (True, s')"
  using assms unfolding try_verification_cycle_def check_phone_screen_def
  by (auto split: if_splits outcome.splits)

lemma attempts_loop_True:
  "run_stable w P \<Longrightarrow> P s \<Longrightarrow> attempts_loop w n s = (True, s')
     \<Longrightarrow> \<exists>s0. P s0 \<and> try_verification_cycle w s0 = (True, s')"
proof (induction w n s rule: attempts_loop.induct)
  case (1 w n s)
  note rs = "1.prems"(1) and Ps = "1.prems"(2) and run = "1.prems"(3)
  from rs have st: "stable P" by (simp add: run_stable_def)
  have t: "P (next_tick s)" using st Ps by (rule stable_next_tick)
  note simps = attempts_loop.simps[of w n s]
  show ?case
  proof (cases "n < MAX_PHONE_ATTEMPTS")
    case False
    with run show ?thesis by (simp add: simps)
  next
    case True
    note lt = this
    show ?thesis
    proof (cases "0 < n \<and> \<not> phone_screen_restored w (tick s)")
      case True
      with lt run have "attempts_loop w (n + 1) (next_tick s) = (True, s')"
        by (simp add: simps)
      from "1.IH"(1)[OF lt True rs t this] show ?thesis .
    next
      case False
      let ?s0 = "if 0 < n then next_tick s else s"
      have s0: "P ?s0" using t Ps by simp
      obtain ok s1 where c: "try_verification_cycle w ?s0 = (ok, s1)"
        by (cases "try_verification_cycle w ?s0")
      have eq: "attempts_loop w n s =
          (case try_verification_cycle w ?s0 of
             (True, s') \<Rightarrow> (True, s')
           | (False, s') \<Rightarrow> attempts_loop w (n + 1) s')"
        by (subst simps, subst if_P[OF lt], subst if_not_P[OF False], rule refl)
      show ?thesis
      proof (cases ok)
        case True
        with eq c run have "s' = s1" by simp
        with c True have "try_verification_cycle w ?s0 = (True, s')" by simp
        with s0 show ?thesis by blast
      next
        case ok: False
        from try_verification_cycle_stable[OF rs s0 c] ok have s1: "P s1" by simp
        from eq c ok run have r: "attempts_loop w (n + 1) s1 = (True, s')"
          by simp
        from ok have "ok = False" by simp
        from "1.IH"(2)[OF lt False c[symmetric] this rs s1 r] show ?thesis .
      qed
    qed
  qed
qed

lemma update_first_Some:
  "update_first p f ns = Some ns' \<Longrightarrow> \<exists>n\<in>set ns. rn_phone_number n = p \<and> f n \<in> set ns'"
  by (induction ns arbitrary: ns') (auto split: if_splits)

lemma add_number_recorded:
  assumes "p \<noteq> []" and "c \<noteq> []" and "a \<noteq> []"
  shows "\<exists>n\<in>set (numbers (snd (add_number t (Some p) (Some c) (Some a) service pm))).
           rn_phone_number n = p \<and> service \<in> set (services n)"
proof (cases "update_first p (touch t service) (numbers pm)")
  case None
  with assms show ?thesis by (simp add: new_number_def)
next
  case (Some ns)
  from update_first_Some[OF Some] obtain n where "rn_phone_number n = p"
    and "touch t service n \<in> set ns"
    by blast
  moreover have "rn_phone_number (touch t service n) = rn_phone_number n"
    and "service \<in> set (services (touch t service n))"
    by (simp_all add: touch_def)
  ultimately have "\<exists>n\<in>set ns. rn_phone_number n = p \<and> service \<in> set (services n)"
    by (intro bexI[of _ "touch t service n"]) simp_all
  with assms Some show ?thesis by simp
qed

text \<open>
  The run in the example world of an orchestrator with the example store attached: the
  first purchase succeeds, the code arrives at the first poll, and the number is appended to
  the store with the tag \<open>gmail\<close>.
\<close>

lemma example_run_with_store:
  "handle_verification example_world verification_with_store =
     (True,
      \<lparr>current_activation =
         Some \<lparr>activation_id = ''id12'', phone_number = ''5550100'', country_code = ''12'',
               start_time = 209, a_state = NUMBER_RECEIVED, attempts = 0,
               max_lifetime = 1200\<rparr>,
       used_countries = {}, state = COMPLETED,
       available_numbers = [(''151'', 5), (''12'', 5), (''40'', 5), (''16'', 5), (''117'', 5)],
       self_phone_number = Some ''5550100'',
       phone_manager =
         Some \<lparr>numbers = example_numbers @
                  [\<lparr>rn_phone_number = ''5550100'', rn_country_code = ''12'',
                    rn_activation_id = ''id12'', first_used = 217, last_used = 217,
                    services = [''gmail''], times_used = 1\<rparr>],
               storage_file = example_numbers @
                  [\<lparr>rn_phone_number = ''5550100'', rn_country_code = ''12'',
                    rn_activation_id = ''id12'', first_used = 217, last_used = 217,
                    services = [''gmail''], times_used = 1\<rparr>],
               file_writes = 1\<rparr>,
       trace = [BuyNumber ''12'' (Some (''id12'', ''5550100'')), SetStatus ''id12'' 3,
                SetStatus ''id12'' 8],
       tick = 18\<rparr>)"
  by (simp add: run_simps world_simps example_manager_def example_numbers_def save_numbers_def
      new_number_def)

text \<open>
  C1, as the code has it: every run of \<open>handle_verification\<close> that finds the phone screen
  and ends in success has bought an activation in the run and set its status to 8 by
  \<open>set_status\<close> as the last call it logs, so that no status 6 follows for it, the final
  cleanup included; the state is \<open>COMPLETED\<close>. The number is recorded in the reuse store,
  by \<open>add_number\<close> with the tag \<open>gmail\<close>, when a store is attached to the orchestrator
  and the activation is still held at that moment; when no store is attached, or the
  activation has been released while waiting for the SMS, the store is left as it was.
\<close>

theorem successful_run_completes_activation:
  assumes "handle_verification w s = (True, s')"
    and "phone_screen w (tick s) = Returned True"
  shows "\<exists>act es.
           trace s' = trace s @ es @ [SetStatus (activation_id act) 8]
         \<and> BuyNumber (country_code act) (Some (activation_id act, phone_number act)) \<in> set es
         \<and> phone_number act \<noteq> []
         \<and> state s' = COMPLETED
         \<and> (current_activation s' = None \<or> current_activation s' = Some act)
         \<and> phone_manager s' =
             (case (phone_manager s, current_activation s') of
                (Some m, Some held) \<Rightarrow>
                  Some (snd (add_number (clock w (tick s' - 1)) (Some (phone_number act))
                               (Some (country_code act)) (Some (activation_id act)) ''gmail'' m))
              | _ \<Rightarrow> phone_manager s)
         \<and> (\<forall>m. phone_manager s = Some m \<and> current_activation s' = Some act
                  \<and> country_code act \<noteq> [] \<and> activation_id act \<noteq> [] \<longrightarrow>
                (\<exists>m'. phone_manager s' = Some m'
                    \<and> (\<exists>n\<in>set (numbers m'). rn_phone_number n = phone_number act
                                              \<and> ''gmail'' \<in> set (services n))))"
proof -
  let ?P = "run_frame (trace s) (phone_manager s)"
  note rs = run_stable_run_frame[of w "trace s" "phone_manager s"]
  note st = stable_run_frame[of "trace s" "phone_manager s"]
  have P0: "?P s" by (simp add: run_frame_def)
  have P1: "?P (next_tick s)" using st P0 by (rule stable_next_tick)
  obtain v s2 where val: "validate_initial_conditions w (next_tick s) = (v, s2)"
    by (cases "validate_initial_conditions w (next_tick s)")
  from validate_initial_conditions_stable[OF st P1 val] have P2: "?P s2" .
  obtain r s3 where al: "attempts_loop w 0 s2 = (r, s3)" by (cases "attempts_loop w 0 s2")
  from assms val al have v: "v" and r: "r" and s': "s' = ensure_final_cleanup s3"
    by (auto simp: handle_verification_def check_phone_screen_def split: bool.splits)
  from al r have "attempts_loop w 0 s2 = (True, s3)" by simp
  from attempts_loop_True[OF rs P2 this] obtain s0 where P0': "?P s0"
    and cyc: "try_verification_cycle w s0 = (True, s3)"
    by (elim exE conjE) (rule that)
  from try_verification_cycle_True[OF cyc] obtain s0' where
    s0': "s0' = s0 \<or> s0' = next_tick (next_tick s0)"
    and av: "acquire_and_verify w s0' = (True, s3)"
    by (elim exE conjE) (rule that)
  have "?P (next_tick (next_tick s0))" using P0' by (intro stable_rules[OF st])
  with s0' P0' have P0'': "?P s0'" by auto
  then have pm0: "phone_manager s0' = phone_manager s" by (simp add: run_frame_def)
  from acquire_and_verify_True[OF av] obtain act where
    "completed_with w (trace s0') (phone_manager s0') act s3"
    by (rule exE)
  then have "completed_with w (trace s0') (phone_manager s) act s3" by (simp only: pm0)
  with P0'' have cw: "completed_with w (trace s) (phone_manager s) act s3"
    by (rule completed_with_trans)
  then have "state s3 = COMPLETED" by (simp add: completed_with_def)
  then have "ensure_final_cleanup s3 = s3" by (rule ensure_final_cleanup_completed)
  with s' have e: "s' = s3" by simp
  from cw have "completed_with w (trace s) (phone_manager s) act s'" by (simp only: e)
  then obtain es where
    t: "trace s' = trace s @ es @ [SetStatus (activation_id act) 8]"
    and b: "BuyNumber (country_code act) (Some (activation_id act, phone_number act)) \<in> set es"
    and p: "phone_number act \<noteq> []"
    and c: "state s' = COMPLETED"
    and h: "current_activation s' = None \<or> current_activation s' = Some act"
    and pm: "phone_manager s' =
             (case (phone_manager s, current_activation s') of
                (Some m, Some held) \<Rightarrow>
                  Some (snd (add_number (clock w (tick s' - 1)) (Some (phone_number act))
                               (Some (country_code act)) (Some (activation_id act)) ''gmail'' m))
              | _ \<Rightarrow> phone_manager s)"
    unfolding completed_with_def by (elim exE conjE) (rule that)
  have rec: "\<forall>m. phone_manager s = Some m \<and> current_activation s' = Some act
                  \<and> country_code act \<noteq> [] \<and> activation_id act \<noteq> [] \<longrightarrow>
                (\<exists>m'. phone_manager s' = Some m'
                    \<and> (\<exists>n\<in>set (numbers m'). rn_phone_number n = phone_number act
                                              \<and> ''gmail'' \<in> set (services n)))"
  proof (intro allI impI)
    fix m
    assume a: "phone_manager s = Some m \<and> current_activation s' = Some act
                  \<and> country_code act \<noteq> [] \<and> activation_id act \<noteq> []"
    let ?m' = "snd (add_number (clock w (tick s' - 1)) (Some (phone_number act))
                               (Some (country_code act)) (Some (activation_id act)) ''gmail'' m)"
    from a pm have "phone_manager s' = Some ?m'" by simp
    moreover from a p have "\<exists>n\<in>set (numbers ?m'). rn_phone_number n = phone_number act
                                              \<and> ''gmail'' \<in> set (services n)"
      by (intro add_number_recorded) simp_all
    ultimately show "\<exists>m'. phone_manager s' = Some m'
                    \<and> (\<exists>n\<in>set (numbers m'). rn_phone_number n = phone_number act
                                              \<and> ''gmail'' \<in> set (services n))"
      by blast
  qed
  from t b p c h pm rec show ?thesis by (intro exI[of _ act] exI[of _ es] conjI)
qed

theorem successful_run_completes_activation_witness:
  "phone_screen example_world (tick verification_with_store) = Returned True
   \<and> handle_verification example_world verification_with_store =
     (True,
      \<lparr>current_activation =
         Some \<lparr>activation_id = ''id12'', phone_number = ''5550100'', country_code = ''12'',
               start_time = 209, a_state = NUMBER_RECEIVED, attempts = 0,
               max_lifetime = 1200\<rparr>,
       used_countries = {}, state = COMPLETED,
       available_numbers = [(''151'', 5), (''12'', 5), (''40'', 5), (''16'', 5), (''117'', 5)],
       self_phone_number = Some ''5550100'',
       phone_manager =
         Some \<lparr>numbers = example_numbers @
                  [\<lparr>rn_phone_number = ''5550100'', rn_country_code = ''12'',
                    rn_activation_id = ''id12'', first_used = 217, last_used = 217,
                    services = [''gmail''], times_used = 1\<rparr>],
               storage_file = example_numbers @
                  [\<lparr>rn_phone_number = ''5550100'', rn_country_code = ''12'',
                    rn_activation_id = ''id12'', first_used = 217, last_used = 217,
                    services = [''gmail''], times_used = 1\<rparr>],
               file_writes = 1\<rparr>,
       trace = [BuyNumber ''12'' (Some (''id12'', ''5550100'')), SetStatus ''id12'' 3,
                SetStatus ''id12'' 8],
       tick = 18\<rparr>)
   \<and> (\<exists>act es.
         trace (snd (handle_verification example_world verification_with_store))
           = trace verification_with_store @ es @ [SetStatus (activation_id act) 8]
         \<and> BuyNumber (country_code act) (Some (activation_id act, phone_number act)) \<in> set es
         \<and> phone_number act \<noteq> []
         \<and> state (snd (handle_verification example_world verification_with_store)) = COMPLETED
         \<and> current_activation (snd (handle_verification example_world verification_with_store))
             = Some act)"
proof -
  have ps: "phone_screen example_world (tick verification_with_store) = Returned True"
    by (simp add: world_simps new_verification_def)
  have run: "handle_verification example_world verification_with_store =
      (True, snd (handle_verification example_world verification_with_store))"
    by (simp add: example_run_with_store)
  from successful_run_completes_activation [OF run ps] obtain act es where
    t: "trace (snd (handle_verification example_world verification_with_store))
           = trace verification_with_store @ es @ [SetStatus (activation_id act) 8]"
    and b: "BuyNumber (country_code act) (Some (activation_id act, phone_number act)) \<in> set es"
    and p: "phone_number act \<noteq> []"
    and c: "state (snd (handle_verification example_world verification_with_store)) = COMPLETED"
    and h: "current_activation (snd (handle_verification example_world verification_with_store))
              = None
            \<or> current_activation (snd (handle_verification example_world verification_with_store))
              = Some act"
    by (elim exE conjE) (rule that)
  from h have h': "current_activation (snd (handle_verification example_world
      verification_with_store)) = Some act"
    by (simp add: example_run_with_store)
  from t b p c h' have "\<exists>act es.
         trace (snd (handle_verification example_world verification_with_store))
           = trace verification_with_store @ es @ [SetStatus (activation_id act) 8]
         \<and> BuyNumber (country_code act) (Some (activation_id act, phone_number act)) \<in> set es
         \<and> phone_number act \<noteq> []
         \<and> state (snd (handle_verification example_world verification_with_store)) = COMPLETED
         \<and> current_activation (snd (handle_verification example_world verification_with_store))
             = Some act"
    by (intro exI[of _ act] exI[of _ es] conjI)
  with ps example_run_with_store show ?thesis by (intro conjI)
qed

text \<open>
  A new orchestrator has no store attached (\<open>phone_manager\<close> is \<open>None\<close>): its run in the
  example world ends in success with status 8 set, and the number is recorded nowhere.
\<close>

theorem successful_run_without_store_counterexample:
  "phone_manager new_verification = None
   \<and> handle_verification example_world new_verification =
     (True,
      \<lparr>current_activation =
         Some \<lparr>activation_id = ''id12'', phone_number = ''5550100'', country_code = ''12'',
               start_time = 209, a_state = NUMBER_RECEIVED, attempts = 0,
               max_lifetime = 1200\<rparr>,
       used_countries = {}, state = COMPLETED,
       available_numbers = [(''151'', 5), (''12'', 5), (''40'', 5), (''16'', 5), (''117'', 5)],
       self_phone_number = Some ''5550100'', phone_manager = None,
       trace = [BuyNumber ''12'' (Some (''id12'', ''5550100'')), SetStatus ''id12'' 3,
                SetStatus ''id12'' 8],
       tick = 17\<rparr>)
   \<and> phone_manager (snd (handle_verification example_world new_verification)) = None"
  by (simp add: run_simps world_simps)

end
